theory Spec2Isabelle
  imports Main
begin

section \<open>The GPU operations of tinygrad (\<open>tinygrad/ops_gpu.py\<close>)\<close>

text \<open>
  The module implements every tensor operation as an OpenCL kernel launched on device
  buffers. The model keeps the Python of each operation (shape computations, checks,
  allocations, kernel launches, in the order of the source) and gives each kernel the
  meaning of its C body, one thread after the other.

  \<^item> Python integers are \<open>int\<close>. The kernels compute on C \<open>int\<close> and \<open>np.int32\<close>; the model
    computes on \<open>int\<close> as well, which is the same as long as buffers hold fewer than
    \<open>2^31\<close> elements (signed overflow is undefined in C).
  \<^item> The elements of a buffer are 32-bit floats. Their arithmetic is not interpreted:
    the type of values is a type variable and the meaning of each C expression that a
    kernel is built from is looked up in a record of functions, \<open>fsem\<close>.
  \<^item> Device memory is an explicit store: a list of allocations, a buffer holding the
    index of its allocation, so that two buffer objects may share one allocation.
  \<^item> A Python exception is a value of type \<open>error\<close>; a kernel that reads or writes
    outside a buffer (undefined behaviour on the device) is the error \<open>DeviceFault\<close>.
\<close>

subsection \<open>Errors, kernels, buffers and the device\<close>

datatype error =
    Exception string
  | AssertionError
  | IndexError
  | ValueError
  | ZeroDivisionError
  | AllocationError
  | DeviceFault

text \<open>
  The source text of a kernel is a fixed template with the operation's code fragments
  spliced in; a value of \<open>kernel_src\<close> names the template and carries the fragments.
\<close>

datatype kernel_src =
    UnopSrc string
  | ReduceSrc string string string
  | BinopSrc string "(bool \<times> bool) list"
  | PermSrc
  | GsliceSrc
  | MatmulSrc
  | ConvSrc
  | ConvwSrc
  | ConvxSrc

text \<open>
  A compiled kernel: \<open>thr.compile(prg).__getattr__(name)\<close> makes a new object at
  every call; \<open>kid\<close> is the identity of that object.
\<close>

datatype kernel = Kernel (kid: nat) (ksrc: kernel_src) (kname: string)

record buffer =
  shape :: "int list"
  cl :: nat

record 'a device =
  mem :: "'a list list"
  fresh :: "nat \<Rightarrow> 'a"
  uploads :: "int list list"
  launches :: "kernel list"
  build_cache :: "((nat \<times> kernel_src \<times> string) \<times> kernel) list"
  binop_cache :: "((nat \<times> string \<times> (bool \<times> bool) list) \<times> kernel) list"
  compiled :: nat

record 'a fsem =
  fzero :: 'a
  fadd :: "'a \<Rightarrow> 'a \<Rightarrow> 'a"
  fmul :: "'a \<Rightarrow> 'a \<Rightarrow> 'a"
  lit :: "string \<Rightarrow> 'a"
  expr1 :: "string \<Rightarrow> 'a \<Rightarrow> 'a"
  expr2 :: "string \<Rightarrow> 'a \<Rightarrow> 'a \<Rightarrow> 'a"

subsection \<open>\<open>clbuild\<close>: compilation behind \<open>functools.lru_cache()\<close>\<close>

text \<open>
  \<open>functools.lru_cache()\<close> keeps at most \<open>maxsize = 128\<close> results (its default). The
  cache is a list of (key, result), the most recently used first. A hit moves the entry
  to the front; a miss calls the function and puts the result in front, dropping the
  least recently used entry when the cache is full.
\<close>

definition lru_maxsize :: nat where
  "lru_maxsize = 128"

definition lru_hit :: "'k \<Rightarrow> 'v \<Rightarrow> ('k \<times> 'v) list \<Rightarrow> ('k \<times> 'v) list" where
  "lru_hit k v c = (k, v) # filter (\<lambda>e. fst e \<noteq> k) c"

definition lru_miss :: "'k \<Rightarrow> 'v \<Rightarrow> ('k \<times> 'v) list \<Rightarrow> ('k \<times> 'v) list" where
  "lru_miss k v c = (k, v) # (if lru_maxsize \<le> length c then butlast c else c)"

definition clbuild :: "nat \<Rightarrow> kernel_src \<Rightarrow> string \<Rightarrow> 'a device \<Rightarrow> kernel \<times> 'a device" where
  "clbuild thr prg name s =
     (case map_of (build_cache s) (thr, prg, name) of
        Some h \<Rightarrow> (h, s\<lparr>build_cache := lru_hit (thr, prg, name) h (build_cache s)\<rparr>)
      | None \<Rightarrow>
          (let h = Kernel (compiled s) prg name
           in (h, s\<lparr>build_cache := lru_miss (thr, prg, name) h (build_cache s),
                      compiled := compiled s + 1\<rparr>)))"

text \<open>A run of builds, one key after the other.\<close>

fun clbuild_all :: "(nat \<times> kernel_src \<times> string) list \<Rightarrow> 'a device \<Rightarrow> 'a device" where
  "clbuild_all [] s = s"
| "clbuild_all ((thr, prg, name) # ks) s = clbuild_all ks (snd (clbuild thr prg name s))"

definition device0 :: "'a \<Rightarrow> 'a device" where
  "device0 junk =
     \<lparr>mem = [], fresh = (\<lambda>_. junk), uploads = [], launches = [],
      build_cache = [], binop_cache = [], compiled = 0\<rparr>"

subsection \<open>Buffers and kernel launches\<close>

text \<open>
  Modelled from the spec: the class \<open>GPUBuffer\<close> of \<open>tinygrad/tensor.py\<close> is not part
  of the sources. By the spec a buffer is a shape and a device allocation of
  \<open>product(shape)\<close> floats, zero-initialised on demand (\<open>np.zeros\<close> refuses a negative
  dimension) and of unspecified contents otherwise (here: whatever \<open>fresh\<close> holds), and
  a buffer made from another buffer shares its allocation.
\<close>

definition buffer_new :: "'a fsem \<Rightarrow> int list \<Rightarrow> bool \<Rightarrow> 'a device \<Rightarrow> (error + buffer) \<times> 'a device" where
  "buffer_new F shp zero s =
     (if zero \<and> (\<exists>d \<in> set shp. d < 0) then (Inl ValueError, s)
      else if prod_list shp < 0 then (Inl AllocationError, s)
      else (Inr \<lparr>shape = shp, cl = length (mem s)\<rparr>,
            s\<lparr>mem := mem s @ [if zero then replicate (nat (prod_list shp)) (fzero F)
                                 else map (fresh s) [0..<nat (prod_list shp)]]\<rparr>))"

definition GPUBuffer_of :: "int list \<Rightarrow> buffer \<Rightarrow> buffer" where
  "GPUBuffer_of shp hostbuf = \<lparr>shape = shp, cl = cl hostbuf\<rparr>"

text \<open>\<open>buffer_np\<close>: an array of integers uploaded for a kernel to read.\<close>

definition buffer_np :: "int list \<Rightarrow> 'a device \<Rightarrow> int list \<times> 'a device" where
  "buffer_np x s = (x, s\<lparr>uploads := uploads s @ [x]\<rparr>)"

text \<open>The contents of a buffer, and a read at an index; \<open>None\<close> is a read out of range.\<close>

definition contents :: "'a device \<Rightarrow> buffer \<Rightarrow> 'a list" where
  "contents s b = (if cl b < length (mem s) then mem s ! cl b else [])"

definition rd :: "'b list \<Rightarrow> int \<Rightarrow> 'b option" where
  "rd xs i = (if 0 \<le> i \<and> i < int (length xs) then Some (xs ! nat i) else None)"

text \<open>
  A thread of a kernel ends in one write \<open>(index, value)\<close> to the output buffer, or in
  \<open>None\<close> when it read out of range. A launch runs its threads in the order of their
  global ids; a fault of one thread is the fault of the launch.
\<close>

fun run_threads :: "'a list \<Rightarrow> (int \<times> 'a) option list \<Rightarrow> 'a list option" where
  "run_threads buf [] = Some buf"
| "run_threads buf (None # ws) = None"
| "run_threads buf (Some (i, v) # ws) =
     (if 0 \<le> i \<and> i < int (length buf) then run_threads (buf[nat i := v]) ws else None)"

definition launch :: "kernel \<Rightarrow> nat \<Rightarrow> (int \<times> 'a) option list \<Rightarrow> 'a device \<Rightarrow> (error + unit) \<times> 'a device" where
  "launch k out ws s =
     (if out < length (mem s) then
        (case run_threads (mem s ! out) ws of
           None \<Rightarrow> (Inl DeviceFault, s\<lparr>launches := launches s @ [k]\<rparr>)
         | Some b \<Rightarrow> (Inr (), s\<lparr>mem := (mem s)[out := b], launches := launches s @ [k]\<rparr>))
      else (Inl DeviceFault, s\<lparr>launches := launches s @ [k]\<rparr>))"

text \<open>The global ids of a launch of \<open>n\<close> threads: \<open>0, ..., n - 1\<close>.\<close>

definition gids :: "int \<Rightarrow> int list" where
  "gids n = map int [0..<nat n]"

text \<open>Python indexing of a sequence of length \<open>n\<close>: a negative index counts from the end.\<close>

definition py_index :: "nat \<Rightarrow> int \<Rightarrow> error + nat" where
  "py_index n i =
     (if - int n \<le> i \<and> i < int n then Inr (nat (if i < 0 then i + int n else i))
      else Inl IndexError)"

subsection \<open>Binary operations\<close>

text \<open>
  \<open>get_binop_prg\<close> (cached by \<open>functools.lru_cache()\<close> as well) writes the kernel for
  a code fragment and a list of flags, one pair per (merged) dimension: whether
  \<open>x\<close>, and whether \<open>y\<close>, varies along it.
\<close>

definition get_binop_prg :: "nat \<Rightarrow> string \<Rightarrow> (bool \<times> bool) list \<Rightarrow> 'a device \<Rightarrow> kernel \<times> 'a device" where
  "get_binop_prg thr code complist s =
     (case map_of (binop_cache s) (thr, code, complist) of
        Some h \<Rightarrow> (h, s\<lparr>binop_cache := lru_hit (thr, code, complist) h (binop_cache s)\<rparr>)
      | None \<Rightarrow>
          (case clbuild thr (BinopSrc code complist) ''binop'' s of
             (h, s1) \<Rightarrow>
               (h, s1\<lparr>binop_cache := lru_miss (thr, code, complist) h (binop_cache s1)\<rparr>)))"

text \<open>
  The kernel \<open>binop\<close> with arguments \<open>d0 .. d(n-1)\<close> and \<open>p0 .. p(n-2)\<close>:
  \<open>idx_ret i = (gid0 / p i) % d i\<close> (with 1 for \<open>p (n-1)\<close>), and the index into each
  operand is \<open>idx_ret i + d i * (...)\<close> nested over the dimensions along which it varies.
\<close>

definition binop_idx :: "bool list \<Rightarrow> int list \<Rightarrow> int list \<Rightarrow> int \<Rightarrow> int" where
  "binop_idx flags d p gid0 =
     foldl (\<lambda>e i. if flags ! i
                    then (gid0 div (if i < length flags - 1 then p ! i else 1)) mod (d ! i) + d ! i * e
                    else e)
           0 [0..<length flags]"

definition binop_thread :: "'a fsem \<Rightarrow> kernel_src \<Rightarrow> 'a list \<Rightarrow> 'a list \<Rightarrow> int list \<Rightarrow> int list \<Rightarrow> int \<Rightarrow> (int \<times> 'a) option" where
  "binop_thread F src x_g y_g d p gid0 =
     (case src of
        BinopSrc code complist \<Rightarrow>
          (case rd x_g (binop_idx (map fst complist) d p gid0) of
             None \<Rightarrow> None
           | Some a \<Rightarrow>
               (case rd y_g (binop_idx (map snd complist) d p gid0) of
                  None \<Rightarrow> None
                | Some b \<Rightarrow> Some (gid0, expr2 F code a b)))
      | _ \<Rightarrow> None)"

definition push :: "int \<Rightarrow> bool \<times> bool \<Rightarrow> int list \<times> (bool \<times> bool) list \<Rightarrow> int list \<times> (bool \<times> bool) list" where
  "push dim cmp dc =
     (case dc of (dimlist, complist) \<Rightarrow>
        if complist \<noteq> [] \<and> last complist = cmp
        then (butlast dimlist @ [last dimlist * dim], complist)
        else if cmp \<noteq> (False, False) then (dimlist @ [dim], complist @ [cmp])
        else (dimlist, complist))"

text \<open>\<open>np.array(dimlist)[-1::-1].cumprod()[-1::-1]\<close>: the products from the back.\<close>

definition cumprod_back :: "int list \<Rightarrow> int list" where
  "cumprod_back dimlist = map (\<lambda>i. prod_list (drop i dimlist)) [0..<length dimlist]"

definition binary_op :: "'a fsem \<Rightarrow> nat \<Rightarrow> string \<Rightarrow> buffer \<Rightarrow> buffer \<Rightarrow> 'a device \<Rightarrow> (error + buffer) \<times> 'a device" where
  "binary_op F thr code x y s =
     (let n_dims = max (length (shape x)) (length (shape y));
          shape_x = shape x @ replicate (n_dims - length (shape x)) 1;
          shape_y = shape y @ replicate (n_dims - length (shape y)) 1
      in if \<not> list_all2 (\<lambda>dx dy. dx = 1 \<or> dy = 1 \<or> dx = dy) shape_x shape_y
         then (Inl (Exception ''binary op unbroadcastable shape mismatch''), s)
         else
          (let shape_ret = map2 max shape_x shape_y;
               dc = foldl (\<lambda>dc i. push (max (shape_x ! i) (shape_y ! i))
                                        (1 < shape_x ! i, 1 < shape_y ! i) dc)
                          ([], []) [0..<n_dims];
               dimlist = fst dc;
               complist = snd dc
           in case get_binop_prg thr code complist s of
                (prg, s1) \<Rightarrow>
                  (case buffer_new F shape_ret True s1 of
                     (Inl e, s2) \<Rightarrow> (Inl e, s2)
                   | (Inr ret, s2) \<Rightarrow>
                       (let prods = cumprod_back dimlist;
                            global_size = (if dimlist \<noteq> [] then hd prods else 1)
                        in case launch prg (cl ret)
                                  (map (binop_thread F (ksrc prg) (contents s2 x) (contents s2 y)
                                          dimlist (tl prods))
                                       (gids global_size))
                                  s2 of
                             (Inl e, s3) \<Rightarrow> (Inl e, s3)
                           | (Inr _, s3) \<Rightarrow> (Inr ret, s3)))))"

definition Add_forward :: "'a fsem \<Rightarrow> nat \<Rightarrow> buffer \<Rightarrow> buffer \<Rightarrow> 'a device \<Rightarrow> (error + buffer) \<times> 'a device" where
  "Add_forward F thr x y s = binary_op F thr ''a+b'' x y s"

fun digit_idx :: "('c \<Rightarrow> bool) \<Rightarrow> (int \<times> 'c) list \<Rightarrow> int \<Rightarrow> int" where
  "digit_idx sel [] g = 0"
| "digit_idx sel ((d, c) # r) g =
     (if sel c then g mod d + d * digit_idx sel r (g div d) else digit_idx sel r (g div d))"

fun horner_idx :: "('c \<Rightarrow> bool) \<Rightarrow> (int \<times> 'c) list \<Rightarrow> int \<Rightarrow> int \<Rightarrow> int" where
  "horner_idx sel [] g e = e"
| "horner_idx sel ((d, c) # r) g e =
     horner_idx sel r g (if sel c then (g div prod_list (map fst r)) mod d + d * e else e)"

definition push_all :: "(int \<times> bool \<times> bool) list \<Rightarrow> int list \<times> (bool \<times> bool) list" where
  "push_all rs = foldl (\<lambda>dc (d, c). push d c dc) ([], []) rs"

definition raw_ok :: "(int \<times> bool \<times> bool) list \<Rightarrow> bool" where
  "raw_ok rs \<longleftrightarrow> (\<forall>(d, c) \<in> set rs. 0 < d \<and> (c = (False, False) \<longrightarrow> d = 1))"

definition flat_index :: "int list \<Rightarrow> int list \<Rightarrow> int" where
  "flat_index shp ms = foldl (\<lambda>acc (d, m). acc * d + m) 0 (zip shp ms)"

definition in_shape :: "int list \<Rightarrow> int list \<Rightarrow> bool" where
  "in_shape shp ms \<longleftrightarrow> list_all2 (\<lambda>d m. 0 \<le> m \<and> m < d) shp ms"

definition broadcast_from :: "int list \<Rightarrow> int list \<Rightarrow> int list" where
  "broadcast_from shp ms = map2 (\<lambda>d m. if d = 1 then 0 else m) shp ms"

definition pad_ones :: "nat \<Rightarrow> int list \<Rightarrow> int list" where
  "pad_ones n shp = shp @ replicate (n - length shp) 1"

definition broadcastable :: "int list \<Rightarrow> int list \<Rightarrow> bool" where
  "broadcastable sx sy \<longleftrightarrow> list_all2 (\<lambda>dx dy. dx = 1 \<or> dy = 1 \<or> dx = dy) sx sy"

definition wf_buffer :: "'a device \<Rightarrow> buffer \<Rightarrow> bool" where
  "wf_buffer s b \<longleftrightarrow>
     cl b < length (mem s) \<and> (\<forall>d \<in> set (shape b). 0 < d) \<and>
     length (mem s ! cl b) = nat (prod_list (shape b))"

definition cache_ok :: "'a device \<Rightarrow> bool" where
  "cache_ok s \<longleftrightarrow>
     (\<forall>(k, h) \<in> set (binop_cache s). ksrc h = BinopSrc (fst (snd k)) (snd (snd k))) \<and>
     (\<forall>(k, h) \<in> set (build_cache s). ksrc h = fst (snd k))"

definition raw_dims :: "int list \<Rightarrow> int list \<Rightarrow> (int \<times> bool \<times> bool) list" where
  "raw_dims sx sy = map2 (\<lambda>a b. (max a b, (1 < a, 1 < b))) sx sy"

definition binop_data :: "'a fsem \<Rightarrow> string \<Rightarrow> int list \<Rightarrow> int list \<Rightarrow> 'a list \<Rightarrow> 'a list \<Rightarrow> 'a list" where
  "binop_data F code sx sy xs ys =
     map (\<lambda>g. expr2 F code (xs ! nat (digit_idx fst (rev (raw_dims sx sy)) g))
                              (ys ! nat (digit_idx snd (rev (raw_dims sx sy)) g)))
         (gids (prod_list (map2 max sx sy)))"

text \<open>The padding the spec describes: 1s in front, shapes aligned at the right.\<close>

definition pad_ones_left :: "nat \<Rightarrow> int list \<Rightarrow> int list" where
  "pad_ones_left n shp = replicate (n - length shp) 1 @ shp"

text \<open>
  An interpretation of the kernels' arithmetic over the integers and a device holding
  given buffers, for the examples.
\<close>

definition int_sem :: "int fsem" where
  "int_sem =
     \<lparr>fzero = 0, fadd = (+), fmul = (*),
      lit = (\<lambda>c. if c = ''-INFINITY'' then -1000000 else 0),
      expr1 = (\<lambda>c a. if c = ''out+1e-10'' then a + 0 else a),
      expr2 = (\<lambda>c a b. if c = ''a+b'' \<or> c = ''out += a'' then a + b
                        else if c = ''a*b'' then a * b
                        else if c = ''out = max(a,out)'' then max a b
                        else if c = ''1.0*(a==b)'' then (if a = b then 1 else 0)
                        else if c = ''a/b'' then a div b
                        else a)\<rparr>"

definition int_device :: "int list list \<Rightarrow> int device" where
  "int_device bufs = (device0 0)\<lparr>mem := bufs\<rparr>"

text \<open>Sequencing: the rest of an operation runs when the step before it did not raise.\<close>

definition on_ok :: "(error + 'r) \<times> 's \<Rightarrow> ('r \<Rightarrow> 's \<Rightarrow> (error + 'q) \<times> 's) \<Rightarrow> (error + 'q) \<times> 's" where
  "on_ok m f = (case m of (Inl e, s) \<Rightarrow> (Inl e, s) | (Inr r, s) \<Rightarrow> f r s)"

definition on_val :: "error + 'r \<Rightarrow> 's \<Rightarrow> ('r \<Rightarrow> (error + 'q) \<times> 's) \<Rightarrow> (error + 'q) \<times> 's" where
  "on_val v s f = (case v of Inl e \<Rightarrow> (Inl e, s) | Inr r \<Rightarrow> f r)"

definition py_nth :: "'b list \<Rightarrow> int \<Rightarrow> error + 'b" where
  "py_nth xs i = (case py_index (length xs) i of Inl e \<Rightarrow> Inl e | Inr k \<Rightarrow> Inr (xs ! k))"

subsection \<open>Reductions\<close>

text \<open>\<open>osize[list(axis)] = 1\<close> on a numpy array: an index out of range raises.\<close>

fun set_ones :: "int list \<Rightarrow> int list \<Rightarrow> error + int list" where
  "set_ones osize [] = Inr osize"
| "set_ones osize (a # ax) =
     (case py_index (length osize) a of
        Inl e \<Rightarrow> Inl e
      | Inr i \<Rightarrow> set_ones (osize[i := 1]) ax)"

text \<open>
  The kernel \<open>reduce\<close>. The inner loop over the dimensions computes the index into
  \<open>a_g\<close> of the \<open>x\<close>-th element that thread \<open>gid\<close> reduces: a dimension kept in the
  output takes its digit from \<open>gid\<close>, a reduced one from \<open>x\<close>.
\<close>

fun reduce_idx :: "int \<Rightarrow> int \<Rightarrow> (int \<times> int) list \<Rightarrow> int \<Rightarrow> int \<Rightarrow> int \<Rightarrow> int" where
  "reduce_idx gid x [] idx tprod tsz = idx"
| "reduce_idx gid x ((sx, sr) # dims) idx tprod tsz =
     (if sx = sr
      then reduce_idx gid x dims (idx * sx + (gid div (tprod div sx)) mod sx) (tprod div sx) tsz
      else reduce_idx gid x dims (idx * sx + (x div (tsz div sx)) mod sx) tprod (tsz div sx))"

fun reduce_loop :: "'a fsem \<Rightarrow> string \<Rightarrow> 'a list \<Rightarrow> int \<Rightarrow> (int \<times> int) list \<Rightarrow> int \<Rightarrow> int \<Rightarrow> int list \<Rightarrow> 'a \<Rightarrow> 'a option" where
  "reduce_loop F code a_g gid dims prd sz [] out = Some out"
| "reduce_loop F code a_g gid dims prd sz (x # xs) out =
     (case rd a_g (reduce_idx gid x dims 0 prd sz) of
        None \<Rightarrow> None
      | Some a \<Rightarrow> reduce_loop F code a_g gid dims prd sz xs (expr2 F code a out))"

definition reduce_thread :: "'a fsem \<Rightarrow> kernel_src \<Rightarrow> 'a list \<Rightarrow> int \<Rightarrow> int \<Rightarrow> int list \<Rightarrow> int list \<Rightarrow> int \<Rightarrow> (int \<times> 'a) option" where
  "reduce_thread F src a_g sz prd shape_x shape_ret gid =
     (case src of
        ReduceSrc start code code2 \<Rightarrow>
          (case reduce_loop F code a_g gid (zip shape_x shape_ret) prd sz (gids sz) (lit F start) of
             None \<Rightarrow> None
           | Some out \<Rightarrow> Some (gid, expr1 F code2 out))
      | _ \<Rightarrow> None)"

definition reduce_op :: "'a fsem \<Rightarrow> nat \<Rightarrow> string \<Rightarrow> string \<Rightarrow> buffer \<Rightarrow> int list option \<Rightarrow> string \<Rightarrow> 'a device \<Rightarrow> (error + buffer) \<times> 'a device" where
  "reduce_op F thr code code2 inp axis start s =
     (case (case axis of None \<Rightarrow> Inr (replicate (length (shape inp)) 1)
                       | Some ax \<Rightarrow> set_ones (shape inp) ax) of
        Inl e \<Rightarrow> (Inl e, s)
      | Inr osize \<Rightarrow>
          on_ok (buffer_new F osize False s) (\<lambda>ret0 s1.
            let ret = (if axis = None then ret0\<lparr>shape := [1]\<rparr> else ret0)
            in case clbuild thr (ReduceSrc start code code2) ''reduce'' s1 of (reduce, s2) \<Rightarrow>
               case buffer_np (shape inp) s2 of (shape_x, s3) \<Rightarrow>
               case buffer_np osize s3 of (shape_ret, s4) \<Rightarrow>
                 on_ok (launch reduce (cl ret)
                          (map (reduce_thread F (ksrc reduce) (contents s4 inp)
                                  (prod_list (shape inp) div prod_list osize) (prod_list osize)
                                  shape_x shape_ret)
                               (gids (prod_list osize)))
                          s4)
                       (\<lambda>_ s5. (Inr ret, s5))))"

text \<open>The \<open>axis\<close> argument of \<open>Sum\<close> and \<open>Max\<close>: absent, one integer, or a sequence.\<close>

datatype axis_arg = AxisNone | AxisInt int | AxisSeq "int list"

definition norm_axis :: "axis_arg \<Rightarrow> int list option" where
  "norm_axis axis = (case axis of AxisNone \<Rightarrow> None | AxisInt a \<Rightarrow> Some [a] | AxisSeq ax \<Rightarrow> Some ax)"

text \<open>\<open>[input.shape[i] for i in range(len(input.shape)) if i not in axis]\<close>\<close>

definition drop_axes :: "int list \<Rightarrow> int list \<Rightarrow> int list" where
  "drop_axes shp ax = map (\<lambda>i. shp ! i) (filter (\<lambda>i. int i \<notin> set ax) [0..<length shp])"

definition Sum_forward :: "'a fsem \<Rightarrow> nat \<Rightarrow> buffer \<Rightarrow> axis_arg \<Rightarrow> 'a device \<Rightarrow> (error + buffer) \<times> 'a device" where
  "Sum_forward F thr input axis s =
     on_ok (reduce_op F thr ''out += a'' ''out'' input (norm_axis axis) ''0.0'' s) (\<lambda>ret s1.
       (Inr (case norm_axis axis of None \<Rightarrow> ret
                                  | Some ax \<Rightarrow> ret\<lparr>shape := drop_axes (shape input) ax\<rparr>), s1))"

text \<open>\<open>Max.forward\<close> also saves \<open>(input, axis, ret)\<close> for the backward pass.\<close>

definition Max_forward :: "'a fsem \<Rightarrow> nat \<Rightarrow> buffer \<Rightarrow> axis_arg \<Rightarrow> 'a device \<Rightarrow> (error + buffer \<times> (buffer \<times> int list option \<times> buffer)) \<times> 'a device" where
  "Max_forward F thr input axis s =
     on_ok (reduce_op F thr ''out = max(a,out)'' ''out'' input (norm_axis axis) ''-INFINITY'' s) (\<lambda>ret s1.
       (let ret' = (case norm_axis axis of None \<Rightarrow> ret
                                         | Some ax \<Rightarrow> ret\<lparr>shape := drop_axes (shape input) ax\<rparr>)
        in (Inr (ret', (input, norm_axis axis, ret')), s1)))"

text \<open>\<open>[1 if axis is None or i in axis else input.shape[i] for i in range(len(input.shape))]\<close>\<close>

definition keep_shape :: "int list \<Rightarrow> int list option \<Rightarrow> int list" where
  "keep_shape shp axis =
     map (\<lambda>i. case axis of None \<Rightarrow> 1 | Some ax \<Rightarrow> if int i \<in> set ax then 1 else shp ! i)
         [0..<length shp]"

definition Max_backward :: "'a fsem \<Rightarrow> nat \<Rightarrow> buffer \<times> int list option \<times> buffer \<Rightarrow> buffer \<Rightarrow> 'a device \<Rightarrow> (error + buffer) \<times> 'a device" where
  "Max_backward F thr saved grad_output s =
     (case saved of (input, axis, ret) \<Rightarrow>
        let shp = keep_shape (shape input) axis
        in on_ok (binary_op F thr ''1.0*(a==b)'' input (GPUBuffer_of shp ret) s) (\<lambda>ret2 s1.
           on_ok (reduce_op F thr ''out += a'' ''out+1e-10'' ret2 axis ''0.0'' s1) (\<lambda>dv s2.
           on_ok (binary_op F thr ''a/b'' ret2 (GPUBuffer_of shp dv) s2) (\<lambda>ret3 s3.
             binary_op F thr ''a*b'' ret3 (GPUBuffer_of shp grad_output) s3))))"

subsection \<open>Unbroadcasting and \<open>Mul\<close>\<close>

text \<open>
  \<open>[i for i in range(len(in_sh)) if in_sh[i]==1 and out.shape[i]>1]\<close>: \<open>out.shape[i]\<close>
  is evaluated, and may raise, only where \<open>in_sh[i] == 1\<close>.
\<close>

fun sum_axis :: "nat \<Rightarrow> int list \<Rightarrow> int list \<Rightarrow> error + int list" where
  "sum_axis i [] osh = Inr []"
| "sum_axis i (d # in_sh) osh =
     (if d = 1 then
        (if i < length osh then
           (case sum_axis (Suc i) in_sh osh of
              Inl e \<Rightarrow> Inl e
            | Inr ax \<Rightarrow> Inr (if 1 < osh ! i then int i # ax else ax))
         else Inl IndexError)
      else sum_axis (Suc i) in_sh osh)"

definition unbroadcast :: "'a fsem \<Rightarrow> nat \<Rightarrow> buffer \<Rightarrow> int list \<Rightarrow> 'a device \<Rightarrow> (error + buffer) \<times> 'a device" where
  "unbroadcast F thr out in_sh s =
     (if in_sh \<noteq> [1] then
        (case sum_axis 0 in_sh (shape out) of
           Inl e \<Rightarrow> (Inl e, s)
         | Inr ax \<Rightarrow> reduce_op F thr ''out += a'' ''out'' out (Some ax) ''0.0'' s)
      else reduce_op F thr ''out += a'' ''out'' out None ''0.0'' s)"

definition Mul_forward :: "'a fsem \<Rightarrow> nat \<Rightarrow> buffer \<Rightarrow> buffer \<Rightarrow> 'a device \<Rightarrow> (error + buffer \<times> (buffer \<times> buffer)) \<times> 'a device" where
  "Mul_forward F thr x y s =
     on_ok (binary_op F thr ''a*b'' x y s) (\<lambda>ret s1. (Inr (ret, (x, y)), s1))"

definition Mul_backward :: "'a fsem \<Rightarrow> nat \<Rightarrow> buffer \<times> buffer \<Rightarrow> buffer \<Rightarrow> 'a device \<Rightarrow> (error + buffer \<times> buffer) \<times> 'a device" where
  "Mul_backward F thr saved grad_output s =
     (case saved of (x, y) \<Rightarrow>
        on_ok (binary_op F thr ''a*b'' y grad_output s) (\<lambda>grad_x s1.
        on_ok (binary_op F thr ''a*b'' x grad_output s1) (\<lambda>grad_y s2.
        on_ok (unbroadcast F thr grad_x (shape x) s2) (\<lambda>gx s3.
        on_ok (unbroadcast F thr grad_y (shape y) s3) (\<lambda>gy s4.
          (Inr (gx, gy), s4))))))"

subsection \<open>Movement operations\<close>

definition Reshape_forward :: "buffer \<Rightarrow> int list \<Rightarrow> 'a device \<Rightarrow> (error + buffer) \<times> 'a device" where
  "Reshape_forward x shp s =
     (let shp' = map (\<lambda>d. if d = - 1 then (- prod_list (shape x)) div prod_list shp else d) shp;
          r = GPUBuffer_of shp' x
      in if prod_list (shape x) = prod_list (shape r) then (Inr r, s) else (Inl AssertionError, s))"

text \<open>\<open>np.array(inp.shape)[list(order)]\<close>\<close>

fun take_axes :: "int list \<Rightarrow> int list \<Rightarrow> error + int list" where
  "take_axes shp [] = Inr []"
| "take_axes shp (a # order) =
     (case py_nth shp a of
        Inl e \<Rightarrow> Inl e
      | Inr d \<Rightarrow> (case take_axes shp order of Inl e \<Rightarrow> Inl e | Inr ds \<Rightarrow> Inr (d # ds)))"

text \<open>
  The kernel \<open>perm\<close>: \<open>for(int j=order[i]+1; j<n_axis; j++) stride *= shape[j]\<close>, and the
  loop over \<open>i\<close> from \<open>n_axis-1\<close> down to 0. The arrays \<open>shape\<close> and \<open>order\<close> are read
  on the device; a read outside them is a fault.
\<close>

fun perm_stride :: "int list \<Rightarrow> int list \<Rightarrow> int \<Rightarrow> int option" where
  "perm_stride shp [] stride = Some stride"
| "perm_stride shp (j # js) stride =
     (case rd shp j of None \<Rightarrow> None | Some d \<Rightarrow> perm_stride shp js (stride * d))"

fun perm_idx :: "int list \<Rightarrow> int list \<Rightarrow> int \<Rightarrow> int list \<Rightarrow> int \<Rightarrow> int \<Rightarrow> int option" where
  "perm_idx shp order n_axis [] gi idx = Some idx"
| "perm_idx shp order n_axis (i # is) gi idx =
     (case rd order i of
        None \<Rightarrow> None
      | Some oi \<Rightarrow>
          (case perm_stride shp (map (\<lambda>k. oi + 1 + k) (gids (n_axis - (oi + 1)))) 1 of
             None \<Rightarrow> None
           | Some stride \<Rightarrow>
               (case rd shp oi of
                  None \<Rightarrow> None
                | Some d \<Rightarrow> perm_idx shp order n_axis is (gi div d) (idx + (gi mod d) * stride))))"

definition perm_thread :: "kernel_src \<Rightarrow> 'a list \<Rightarrow> int \<Rightarrow> int list \<Rightarrow> int list \<Rightarrow> int \<Rightarrow> (int \<times> 'a) option" where
  "perm_thread src a_g n_axis shp order gid =
     (case src of
        PermSrc \<Rightarrow>
          (case perm_idx shp order n_axis (rev (gids n_axis)) gid 0 of
             None \<Rightarrow> None
           | Some idx \<Rightarrow> (case rd a_g idx of None \<Rightarrow> None | Some a \<Rightarrow> Some (gid, a)))
      | _ \<Rightarrow> None)"

definition perm_axis :: "'a fsem \<Rightarrow> nat \<Rightarrow> buffer \<Rightarrow> int list \<Rightarrow> 'a device \<Rightarrow> (error + buffer) \<times> 'a device" where
  "perm_axis F thr inp order s =
     (case take_axes (shape inp) order of
        Inl e \<Rightarrow> (Inl e, s)
      | Inr osize \<Rightarrow>
          on_ok (buffer_new F osize False s) (\<lambda>ret s1.
            case clbuild thr PermSrc ''perm'' s1 of (perm, s2) \<Rightarrow>
            case buffer_np (shape inp) s2 of (shp, s3) \<Rightarrow>
            case buffer_np order s3 of (ord, s4) \<Rightarrow>
              on_ok (launch perm (cl ret)
                       (map (perm_thread (ksrc perm) (contents s4 inp) (int (length osize)) shp ord)
                            (gids (prod_list osize)))
                       s4)
                    (\<lambda>_ s5. (Inr ret, s5))))"

text \<open>\<open>np.argsort(order)\<close>: the positions of the entries of \<open>order\<close>, sorted by entry.\<close>

definition argsort :: "int list \<Rightarrow> int list" where
  "argsort order = map (\<lambda>p. int (snd p)) (sort_key fst (zip order [0..<length order]))"

definition Transpose_forward :: "'a fsem \<Rightarrow> nat \<Rightarrow> buffer \<Rightarrow> int list \<Rightarrow> 'a device \<Rightarrow> (error + buffer) \<times> 'a device" where
  "Transpose_forward F thr x order s = perm_axis F thr x order s"

definition Transpose_backward :: "'a fsem \<Rightarrow> nat \<Rightarrow> int list \<Rightarrow> buffer \<Rightarrow> 'a device \<Rightarrow> (error + buffer) \<times> 'a device" where
  "Transpose_backward F thr order grad_output s = perm_axis F thr grad_output (argsort order) s"

text \<open>
  The kernel \<open>gslice\<close>. The loop over the dimensions carries \<open>prod\<close>, \<open>iptr\<close> and \<open>zero\<close>;
  the input is read only when \<open>zero\<close> is still set.
\<close>

fun gslice_idx :: "int \<Rightarrow> int list \<Rightarrow> int list \<Rightarrow> int list \<Rightarrow> int list \<Rightarrow> int \<Rightarrow> int \<Rightarrow> bool \<Rightarrow> (int \<times> bool) option" where
  "gslice_idx gid shape_x shape_ret shift [] prd iptr zero = Some (iptr, zero)"
| "gslice_idx gid shape_x shape_ret shift (dim # dims) prd iptr zero =
     (case rd shape_ret dim of
        None \<Rightarrow> None
      | Some dr \<Rightarrow>
          (case rd shift dim of
             None \<Rightarrow> None
           | Some sh \<Rightarrow>
               (case rd shape_x dim of
                  None \<Rightarrow> None
                | Some dx \<Rightarrow>
                    (let prd' = prd div dr;
                         sidx = (gid div prd') mod dr + sh
                     in gslice_idx gid shape_x shape_ret shift dims prd'
                          (iptr * dx + sidx) (zero \<and> 0 \<le> sidx \<and> sidx < dx)))))"

definition gslice_thread :: "'a fsem \<Rightarrow> kernel_src \<Rightarrow> 'a list \<Rightarrow> int \<Rightarrow> int \<Rightarrow> int list \<Rightarrow> int list \<Rightarrow> int list \<Rightarrow> int \<Rightarrow> (int \<times> 'a) option" where
  "gslice_thread F src input prd n_dims shape_x shape_ret shift gid =
     (case src of
        GsliceSrc \<Rightarrow>
          (case gslice_idx gid shape_x shape_ret shift (gids n_dims) prd 0 True of
             None \<Rightarrow> None
           | Some (iptr, zero) \<Rightarrow>
               (if zero then (case rd input iptr of None \<Rightarrow> None | Some a \<Rightarrow> Some (gid, a))
                else Some (gid, fzero F)))
      | _ \<Rightarrow> None)"

definition inner_slice :: "'a fsem \<Rightarrow> nat \<Rightarrow> buffer \<Rightarrow> (int \<times> int) list \<Rightarrow> 'a device \<Rightarrow> (error + buffer) \<times> 'a device" where
  "inner_slice F thr x arg s =
     (let shift = map fst arg;
          oshape = map (\<lambda>y. snd y - fst y) arg
      in on_ok (buffer_new F oshape False s) (\<lambda>ret s1.
           case clbuild thr GsliceSrc ''gslice'' s1 of (gslice, s2) \<Rightarrow>
           case buffer_np (shape x) s2 of (shape_x, s3) \<Rightarrow>
           case buffer_np (shape ret) s3 of (shape_ret, s4) \<Rightarrow>
           case buffer_np shift s4 of (shift_g, s5) \<Rightarrow>
             on_ok (launch gslice (cl ret)
                      (map (gslice_thread F (ksrc gslice) (contents s5 x) (prod_list (shape ret))
                              (int (length (shape ret))) shape_x shape_ret shift_g)
                           (gids (prod_list (shape ret))))
                      s5)
                   (\<lambda>_ s6. (Inr ret, s6))))"


subsection \<open>Matrix multiplication and convolution\<close>

text \<open>A launch over three dimensions: the threads \<open>(id0, id1, id2)\<close>.\<close>

definition gids3 :: "int \<Rightarrow> int \<Rightarrow> int \<Rightarrow> (int \<times> int \<times> int) list" where
  "gids3 a b c = [(X, Y, Z). Z \<leftarrow> gids c, X \<leftarrow> gids a, Y \<leftarrow> gids b]"

text \<open>
  The accumulation loop of \<open>matmul\<close> and \<open>conv\<close>: \<open>acc += input[..] * weight[..]\<close> for
  each value of the loop variables, in order.
\<close>

fun mac_loop :: "'a fsem \<Rightarrow> 'a list \<Rightarrow> 'a list \<Rightarrow> ('i \<Rightarrow> int) \<Rightarrow> ('i \<Rightarrow> int) \<Rightarrow> 'i list \<Rightarrow> 'a \<Rightarrow> 'a option" where
  "mac_loop F input weight fi fw [] acc = Some acc"
| "mac_loop F input weight fi fw (x # xs) acc =
     (case rd input (fi x) of
        None \<Rightarrow> None
      | Some a \<Rightarrow>
          (case rd weight (fw x) of
             None \<Rightarrow> None
           | Some b \<Rightarrow> mac_loop F input weight fi fw xs (fadd F acc (fmul F a b))))"

definition matmul_thread :: "'a fsem \<Rightarrow> kernel_src \<Rightarrow> 'a list \<Rightarrow> 'a list \<Rightarrow> int \<Rightarrow> int \<Rightarrow> int \<Rightarrow> int \<Rightarrow> int \<Rightarrow> int \<Rightarrow> int \<Rightarrow> int \<times> int \<times> int \<Rightarrow> (int \<times> 'a) option" where
  "matmul_thread F src input weight isize is0 is1 msize ws0 ws1 osize gid =
     (case gid of (X, Y, stride) \<Rightarrow>
        (case src of
           MatmulSrc \<Rightarrow>
             (case mac_loop F input weight
                     (\<lambda>x. X * is0 + x * is1 + isize * msize * stride)
                     (\<lambda>x. Y * ws0 + x * ws1 + msize * osize * stride)
                     (gids msize) (fzero F) of
                None \<Rightarrow> None
              | Some ret \<Rightarrow> Some (X * osize + Y + isize * osize * stride, ret))
         | _ \<Rightarrow> None))"

definition Matmul_forward :: "'a fsem \<Rightarrow> nat \<Rightarrow> buffer \<Rightarrow> buffer \<Rightarrow> 'a device \<Rightarrow> (error + buffer \<times> (buffer \<times> buffer \<times> kernel \<times> int)) \<times> 'a device" where
  "Matmul_forward F thr input weight s =
     on_val (py_nth (shape input) (- 1)) s (\<lambda>m1.
     on_val (py_nth (shape weight) (- 2)) s (\<lambda>m2.
       if m1 \<noteq> m2 then (Inl AssertionError, s)
       else
        (let cnt = (if 2 < length (shape input)
                    then prod_list (take (length (shape input) - 2) (shape input)) else 1)
         in on_val (py_nth (shape input) (- 2)) s (\<lambda>isize.
            on_val (py_nth (shape input) (- 1)) s (\<lambda>msize.
            on_val (py_nth (shape weight) (- 1)) s (\<lambda>osize.
            on_ok (buffer_new F (take (length (shape input) - 2) (shape input) @ [isize, osize]) False s)
              (\<lambda>ret s1.
                 case clbuild thr MatmulSrc ''matmul'' s1 of (matmul, s2) \<Rightarrow>
                   on_ok (launch matmul (cl ret)
                            (map (matmul_thread F (ksrc matmul) (contents s2 input) (contents s2 weight)
                                    isize msize 1 msize 1 osize osize)
                                 (gids3 isize osize cnt))
                            s2)
                         (\<lambda>_ s3. (Inr (ret, (input, weight, matmul, cnt)), s3)))))))))"

definition Matmul_backward :: "'a fsem \<Rightarrow> nat \<Rightarrow> buffer \<times> buffer \<times> kernel \<times> int \<Rightarrow> buffer \<Rightarrow> 'a device \<Rightarrow> (error + buffer \<times> buffer) \<times> 'a device" where
  "Matmul_backward F thr saved grad_output s =
     (case saved of (input, weight, matmul, cnt) \<Rightarrow>
        on_val (py_nth (shape input) (- 2)) s (\<lambda>isize.
        on_val (py_nth (shape input) (- 1)) s (\<lambda>msize.
        on_val (py_nth (shape weight) (- 1)) s (\<lambda>osize.
        on_ok (buffer_new F (shape input) False s) (\<lambda>grad_input s1.
        on_ok (buffer_new F (shape weight) False s1) (\<lambda>grad_weight s2.
        on_ok (launch matmul (cl grad_input)
                 (map (matmul_thread F (ksrc matmul) (contents s2 grad_output) (contents s2 weight)
                         isize osize 1 osize osize 1 msize)
                      (gids3 isize msize cnt))
                 s2) (\<lambda>_ s3.
        on_ok (launch matmul (cl grad_weight)
                 (map (matmul_thread F (ksrc matmul) (contents s3 input) (contents s3 grad_output)
                         msize 1 msize isize 1 osize osize)
                      (gids3 msize osize cnt))
                 s3) (\<lambda>_ s4.
          (Inr (grad_input, grad_weight), s4)))))))))"

datatype stride_arg = StrideInt int | StridePair int int

definition conv_thread :: "'a fsem \<Rightarrow> kernel_src \<Rightarrow> 'a list \<Rightarrow> 'a list \<Rightarrow> int \<Rightarrow> int \<Rightarrow> int \<Rightarrow> int \<Rightarrow> int \<Rightarrow> int \<Rightarrow> int \<Rightarrow> int \<Rightarrow> int \<Rightarrow> int \<Rightarrow> int \<Rightarrow> int \<times> int \<times> int \<Rightarrow> (int \<times> 'a) option" where
  "conv_thread F src input weight H W groups rcout cin oy ox iy ix ys xs gid =
     (case gid of (g0, Y, X) \<Rightarrow>
        (case src of
           ConvSrc \<Rightarrow>
             (let B = g0 div (groups * rcout);
                  g = (g0 div rcout) mod groups;
                  c = g0 mod rcout;
                  IY = Y * ys;
                  IX = X * xs
              in case mac_loop F input weight
                        (\<lambda>(ci, y, x). B * groups * cin * iy * ix + g * cin * iy * ix + ci * iy * ix + y * ix + x)
                        (\<lambda>(ci, y, x). g * rcout * cin * H * W + c * cin * H * W + ci * H * W
                                        + (y - IY) * W + (x - IX))
                        [(ci, y, x). ci \<leftarrow> gids cin, y \<leftarrow> map (\<lambda>k. IY + k) (gids H),
                                     x \<leftarrow> map (\<lambda>k. IX + k) (gids W)]
                        (fzero F) of
                   None \<Rightarrow> None
                 | Some acc \<Rightarrow>
                     Some (B * groups * rcout * oy * ox + g * rcout * oy * ox + c * oy * ox + Y * ox + X, acc))
         | _ \<Rightarrow> None))"

definition Conv2D_forward :: "'a fsem \<Rightarrow> nat \<Rightarrow> buffer \<Rightarrow> buffer \<Rightarrow> stride_arg \<Rightarrow> int \<Rightarrow> 'a device \<Rightarrow> (error + buffer) \<times> 'a device" where
  "Conv2D_forward F thr x w stride groups s =
     (case shape w of
        [cout, cin, H, W] \<Rightarrow>
          (case (case stride of StrideInt k \<Rightarrow> (k, k) | StridePair a b \<Rightarrow> (a, b)) of
             (ys, xs) \<Rightarrow>
               (case shape x of
                  [bs, cin', iy, ix] \<Rightarrow>
                    if ys = 0 \<or> xs = 0 then (Inl ZeroDivisionError, s)
                    else
                     (let oy = (iy - (H - ys)) div ys;
                          ox = (ix - (W - xs)) div xs
                      in if cin * groups \<noteq> cin' then (Inl AssertionError, s)
                         else if groups = 0 then (Inl ZeroDivisionError, s)
                         else if cout mod groups \<noteq> 0 then (Inl AssertionError, s)
                         else
                          (let rcout = cout div groups
                           in on_ok (buffer_new F [bs, cout, oy, ox] False s) (\<lambda>ret s1.
                                case clbuild thr ConvSrc ''conv'' s1 of (conv, s2) \<Rightarrow>
                                  on_ok (launch conv (cl ret)
                                           (map (conv_thread F (ksrc conv) (contents s2 x) (contents s2 w)
                                                   H W groups rcout cin oy ox iy ix ys xs)
                                                (gids3 (bs * groups * rcout) oy ox))
                                           s2)
                                        (\<lambda>_ s3. (Inr ret, s3)))))
                | _ \<Rightarrow> (Inl ValueError, s)))
      | _ \<Rightarrow> (Inl ValueError, s))"

text \<open>
  \<open>Conv2D.backward\<close>. By then \<open>forward\<close> has replaced an integer \<open>ctx.stride\<close> by a pair.
  The kernel \<open>convw\<close> has one thread per (group, output channel, input channel) and
  position \<open>(y, x)\<close> of the window; it accumulates over the output positions and the batch
  and ends in one write.
\<close>

definition convw_thread :: "'a fsem \<Rightarrow> kernel_src \<Rightarrow> 'a list \<Rightarrow> 'a list \<Rightarrow> int \<Rightarrow> int \<Rightarrow> int \<Rightarrow> int \<Rightarrow> int \<Rightarrow> int \<Rightarrow> int \<Rightarrow> int \<Rightarrow> int \<Rightarrow> int \<Rightarrow> int \<Rightarrow> int \<Rightarrow> int \<times> int \<times> int \<Rightarrow> (int \<times> 'a) option" where
  "convw_thread F src tensx ggg H W groups rcout cin oy ox iy ix ys xs bs gid =
     (case gid of (g0, y, x) \<Rightarrow>
        (case src of
           ConvwSrc \<Rightarrow>
             (let g = g0 div (rcout * cin);
                  c = (g0 div cin) mod rcout;
                  ci = g0 mod cin
              in case mac_loop F ggg tensx
                        (\<lambda>(Y, X, B). B * groups * rcout * oy * ox + g * rcout * oy * ox + c * oy * ox
                                        + Y * ox + X)
                        (\<lambda>(Y, X, B). B * groups * cin * iy * ix + g * cin * iy * ix + ci * iy * ix
                                        + (Y * ys + y) * ix + X * xs + x)
                        [(Y, X, B). Y \<leftarrow> gids oy, X \<leftarrow> gids ox, B \<leftarrow> gids bs]
                        (fzero F) of
                   None \<Rightarrow> None
                 | Some acc \<Rightarrow> Some (g0 * H * W + y * W + x, acc))
         | _ \<Rightarrow> None))"

text \<open>
  The kernel \<open>convx\<close> has one thread per (batch, group, input channel); for each output
  position and each position of the window it accumulates over the output channels of
  the group from \<open>0.0\<close> and adds the sum to a cell of \<open>dx\<close> in place
  (\<open>dx[..] += acc\<close>). Such a thread is a function on the contents of the output buffer.
\<close>

fun update_loop :: "'a fsem \<Rightarrow> 'a list \<Rightarrow> 'a list \<Rightarrow> ('i \<Rightarrow> 'j \<Rightarrow> int) \<Rightarrow> ('i \<Rightarrow> 'j \<Rightarrow> int) \<Rightarrow> ('i \<Rightarrow> int) \<Rightarrow> 'j list \<Rightarrow> 'i list \<Rightarrow> 'a list \<Rightarrow> 'a list option" where
  "update_loop F input weight fi fw fo cs [] out = Some out"
| "update_loop F input weight fi fw fo cs (p # ps) out =
     (case mac_loop F input weight (fi p) (fw p) cs (fzero F) of
        None \<Rightarrow> None
      | Some acc \<Rightarrow>
          (case rd out (fo p) of
             None \<Rightarrow> None
           | Some v \<Rightarrow>
               update_loop F input weight fi fw fo cs ps (out[nat (fo p) := fadd F v acc])))"

definition convx_thread :: "'a fsem \<Rightarrow> kernel_src \<Rightarrow> 'a list \<Rightarrow> 'a list \<Rightarrow> int \<Rightarrow> int \<Rightarrow> int \<Rightarrow> int \<Rightarrow> int \<Rightarrow> int \<Rightarrow> int \<Rightarrow> int \<Rightarrow> int \<Rightarrow> int \<Rightarrow> int \<Rightarrow> int \<Rightarrow> int \<times> int \<times> int \<Rightarrow> 'a list \<Rightarrow> 'a list option" where
  "convx_thread F src tensw ggg H W groups rcout cin oy ox iy ix ys xs bs gid dx =
     (case gid of (B, g, ci) \<Rightarrow>
        (case src of
           ConvxSrc \<Rightarrow>
             update_loop F ggg tensw
               (\<lambda>(Y, X, y, x) c. B * groups * rcout * oy * ox + g * rcout * oy * ox + c * oy * ox
                                   + Y * ox + X)
               (\<lambda>(Y, X, y, x) c. g * rcout * cin * H * W + c * cin * H * W + ci * H * W + y * W + x)
               (\<lambda>(Y, X, y, x). B * groups * cin * iy * ix + g * cin * iy * ix + ci * iy * ix
                                 + (Y * ys + y) * ix + X * xs + x)
               (gids rcout)
               [(Y, X, y, x). Y \<leftarrow> gids oy, X \<leftarrow> gids ox, y \<leftarrow> gids H, x \<leftarrow> gids W]
               dx
         | _ \<Rightarrow> None))"

text \<open>A launch of threads that update the output buffer in place, one after the other.\<close>

fun run_updates :: "'a list \<Rightarrow> ('a list \<Rightarrow> 'a list option) list \<Rightarrow> 'a list option" where
  "run_updates buf [] = Some buf"
| "run_updates buf (t # ts) = (case t buf of None \<Rightarrow> None | Some b \<Rightarrow> run_updates b ts)"

definition launch_updates :: "kernel \<Rightarrow> nat \<Rightarrow> ('a list \<Rightarrow> 'a list option) list \<Rightarrow> 'a device \<Rightarrow> (error + unit) \<times> 'a device" where
  "launch_updates k out ts s =
     (if out < length (mem s) then
        (case run_updates (mem s ! out) ts of
           None \<Rightarrow> (Inl DeviceFault, s\<lparr>launches := launches s @ [k]\<rparr>)
         | Some b \<Rightarrow> (Inr (), s\<lparr>mem := (mem s)[out := b], launches := launches s @ [k]\<rparr>))
      else (Inl DeviceFault, s\<lparr>launches := launches s @ [k]\<rparr>))"

definition Conv2D_backward :: "'a fsem \<Rightarrow> nat \<Rightarrow> buffer \<times> buffer \<Rightarrow> int \<times> int \<Rightarrow> int \<Rightarrow> buffer \<Rightarrow> 'a device \<Rightarrow> (error + buffer \<times> buffer) \<times> 'a device" where
  "Conv2D_backward F thr saved stride groups grad_output s =
     (case shape grad_output of
        [bs0, cout0, oy0, ox0] \<Rightarrow>
          (case saved of (x, w) \<Rightarrow>
             (case shape w of
                [cout, cin, H, W] \<Rightarrow>
                  (case stride of (ys, xs) \<Rightarrow>
                     (case shape x of
                        [bs, cin', iy, ix] \<Rightarrow>
                          if ys = 0 \<or> xs = 0 then (Inl ZeroDivisionError, s)
                          else
                           (let oy = (iy - (H - ys)) div ys;
                                ox = (ix - (W - xs)) div xs
                            in if cin * groups \<noteq> cin' then (Inl AssertionError, s)
                               else if groups = 0 then (Inl ZeroDivisionError, s)
                               else if cout mod groups \<noteq> 0 then (Inl AssertionError, s)
                               else
                                (let rcout = cout div groups
                                 in on_ok (buffer_new F [bs, cin', iy, ix] True s) (\<lambda>dx s1.
                                    on_ok (buffer_new F [cout, cin, H, W] False s1) (\<lambda>dw s2.
                                      case clbuild thr ConvwSrc ''convw'' s2 of (convw, s3) \<Rightarrow>
                                      case clbuild thr ConvxSrc ''convx'' s3 of (convx, s4) \<Rightarrow>
                                        on_ok (launch convw (cl dw)
                                                 (map (convw_thread F (ksrc convw) (contents s4 x)
                                                         (contents s4 grad_output)
                                                         H W groups rcout cin oy ox iy ix ys xs bs)
                                                      (gids3 (groups * rcout * cin) H W))
                                                 s4) (\<lambda>_ s5.
                                        on_ok (launch_updates convx (cl dx)
                                                 (map (convx_thread F (ksrc convx) (contents s5 w)
                                                         (contents s5 grad_output)
                                                         H W groups rcout cin oy ox iy ix ys xs bs)
                                                      (gids3 bs groups cin))
                                                 s5) (\<lambda>_ s6.
                                          (Inr (dx, dw), s6)))))))
                      | _ \<Rightarrow> (Inl ValueError, s)))
              | _ \<Rightarrow> (Inl ValueError, s)))
      | _ \<Rightarrow> (Inl ValueError, s))"

definition reduce_val :: "'a fsem \<Rightarrow> string \<Rightarrow> 'a list \<Rightarrow> int \<Rightarrow> (int \<times> int) list \<Rightarrow> int \<Rightarrow> int \<Rightarrow> int list \<Rightarrow> 'a \<Rightarrow> 'a" where
  "reduce_val F code a_g gid dims prd sz xs out =
     foldl (\<lambda>out x. expr2 F code (a_g ! nat (reduce_idx gid x dims 0 prd sz)) out) out xs"

definition reduce_data :: "'a fsem \<Rightarrow> string \<Rightarrow> string \<Rightarrow> string \<Rightarrow> 'a list \<Rightarrow> int list \<Rightarrow> int list \<Rightarrow> 'a list" where
  "reduce_data F start code code2 a_g shp osize =
     map (\<lambda>gid. expr1 F code2
            (reduce_val F code a_g gid (zip shp osize) (prod_list osize)
               (prod_list shp div prod_list osize)
               (gids (prod_list shp div prod_list osize)) (lit F start)))
         (gids (prod_list osize))"

definition osize_of :: "int list \<Rightarrow> int list option \<Rightarrow> error + int list" where
  "osize_of shp axis =
     (case axis of None \<Rightarrow> Inr (replicate (length shp) 1) | Some ax \<Rightarrow> set_ones shp ax)"

text \<open>
  The two shapes of a reduction: the input shape with each reduced axis set to 1, as the
  spec has it, and the input shape with the reduced axes removed.
\<close>

definition axes_set_to_one :: "int list \<Rightarrow> int list \<Rightarrow> int list" where
  "axes_set_to_one shp ax = map (\<lambda>i. if int i \<in> set ax then 1 else shp ! i) [0..<length shp]"

definition axes_removed :: "int list \<Rightarrow> int list \<Rightarrow> int list" where
  "axes_removed shp ax = nths shp {i. int i \<notin> set ax}"

text \<open>\<open>ctx.stride\<close> as a pair: an integer stands for the same stride along both axes.\<close>

definition stride_pair :: "stride_arg \<Rightarrow> int \<times> int" where
  "stride_pair stride = (case stride of StrideInt k \<Rightarrow> (k, k) | StridePair a b \<Rightarrow> (a, b))"

text \<open>
  The reference for the matrix products: the dot product accumulated from \<open>0.0\<close> in the
  order of the index, and the element \<open>(r, c)\<close> of the \<open>b\<close>-th \<open>R \<times> C\<close> matrix of a buffer.
\<close>

definition dot :: "'a fsem \<Rightarrow> int \<Rightarrow> (int \<Rightarrow> 'a) \<Rightarrow> (int \<Rightarrow> 'a) \<Rightarrow> 'a" where
  "dot F n f g = foldl (\<lambda>acc k. fadd F acc (fmul F (f k) (g k))) (fzero F) (gids n)"

definition at3 :: "'a list \<Rightarrow> int \<Rightarrow> int \<Rightarrow> int \<Rightarrow> int \<Rightarrow> int \<Rightarrow> 'a" where
  "at3 xs R C b r c = xs ! nat (b * R * C + r * C + c)"


text \<open>
  A permutation of the axes \<open>0, ..., n - 1\<close>, and the list \<open>xs\<close> taken in the order of a
  list of axes.
\<close>

definition is_perm :: "nat \<Rightarrow> int list \<Rightarrow> bool" where
  "is_perm n order \<longleftrightarrow> distinct order \<and> set order = int ` {0..<n}"

definition permute :: "int list \<Rightarrow> 'b list \<Rightarrow> 'b list" where
  "permute order xs = map (\<lambda>a. xs ! nat a) order"

definition perm_val :: "'a list \<Rightarrow> int list \<Rightarrow> int list \<Rightarrow> int \<Rightarrow> 'a" where
  "perm_val a_g shp order gid =
     a_g ! nat (the (perm_idx shp order (int (length order)) (rev (gids (int (length order)))) gid 0))"

(*DEFS*)

text \<open>
  The invariant behind the cache: the key \<open>k\<close> is cached and every key used more recently
  than \<open>k\<close> is in the set \<open>A\<close>.
\<close>

definition lru_inv :: "'k \<Rightarrow> 'k set \<Rightarrow> ('k \<times> 'v) list \<Rightarrow> bool" where
  "lru_inv k A c \<longleftrightarrow>
     k \<in> set (map fst c) \<and> distinct (map fst c) \<and> length c \<le> lru_maxsize \<and>
     set (takeWhile (\<lambda>j. j \<noteq> k) (map fst c)) \<subseteq> A"


(*PROOFS*)

section \<open>Properties\<close>

subsection \<open>The compilation cache\<close>


lemma map_of_filter_neq: "j \<noteq> k \<Longrightarrow> map_of (filter (\<lambda>e. fst e \<noteq> j) c) k = map_of c k"
  by (induction c) auto

lemma map_of_lru_hit_other: "j \<noteq> k \<Longrightarrow> map_of (lru_hit j v c) k = map_of c k"
  by (simp add: lru_hit_def map_of_filter_neq)

lemma map_fst_filter: "map fst (filter (\<lambda>e. fst e \<noteq> j) c) = filter (\<lambda>x. x \<noteq> j) (map fst c)"
  by (induction c) auto

lemma takeWhile_filter_subset:
  "j \<noteq> k \<Longrightarrow> set (takeWhile (\<lambda>x. x \<noteq> k) (filter (\<lambda>x. x \<noteq> j) xs)) \<subseteq> set (takeWhile (\<lambda>x. x \<noteq> k) xs)"
  by (induction xs) auto

lemma length_filter_present:
  "j \<in> set (map fst c) \<Longrightarrow> Suc (length (filter (\<lambda>e. fst e \<noteq> j) c)) \<le> length c"
  by (induction c) (auto intro: le_SucI le_trans [OF length_filter_le])

lemma lru_inv_hit_same:
  assumes "lru_inv k A c"
  shows "lru_inv k A' (lru_hit k v c)"
  using assms length_filter_present [of k c]
  by (auto simp: lru_inv_def lru_hit_def map_fst_filter)

lemma lru_inv_hit_other:
  assumes "lru_inv k A c" "j \<noteq> k" "j \<in> set (map fst c)"
  shows "lru_inv k (insert j A) (lru_hit j v c)"
  using assms length_filter_present [of j c] takeWhile_filter_subset [of j k "map fst c"]
  by (auto simp: lru_inv_def lru_hit_def map_fst_filter)

lemma takeWhile_butlast_subset: "set (takeWhile P (butlast xs)) \<subseteq> set (takeWhile P xs)"
  by (induction xs) auto

lemma last_takeWhile_all:
  assumes "distinct xs" "k \<in> set xs" "k \<notin> set (butlast xs)"
  shows "takeWhile (\<lambda>x. x \<noteq> k) xs = butlast xs"
  using assms by (induction xs) (auto split: if_splits)

lemma map_of_butlast:
  "distinct (map fst c) \<Longrightarrow> k \<in> set (butlast (map fst c)) \<Longrightarrow> map_of (butlast c) k = map_of c k"
  by (induction c) (auto split: if_splits)

lemma lru_maxsize_pos: "0 < lru_maxsize"
  by (simp add: lru_maxsize_def)

lemma lru_inv_miss:
  assumes inv: "lru_inv k A c" and jk: "j \<noteq> k" and jc: "j \<notin> set (map fst c)"
    and fin: "finite B" and sub: "insert j A \<subseteq> B" and card: "card B < lru_maxsize"
  shows "lru_inv k (insert j A) (lru_miss j v c) \<and> map_of (lru_miss j v c) k = map_of c k"
proof (cases "lru_maxsize \<le> length c")
  case False
  then show ?thesis
    using inv jk jc by (auto simp: lru_inv_def lru_miss_def)
next
  case True
  let ?ks = "map fst c"
  have len: "length c = lru_maxsize" using True inv by (simp add: lru_inv_def)
  have dist: "distinct ?ks" and kin: "k \<in> set ?ks"
    and pre: "set (takeWhile (\<lambda>x. x \<noteq> k) ?ks) \<subseteq> A"
    using inv by (auto simp: lru_inv_def)
  have kbl: "k \<in> set (butlast ?ks)"
  proof (rule ccontr)
    assume "k \<notin> set (butlast ?ks)"
    then have tw: "takeWhile (\<lambda>x. x \<noteq> k) ?ks = butlast ?ks"
      using last_takeWhile_all dist kin by fastforce
    have "distinct (j # butlast ?ks)"
      using dist jc by (auto simp: distinct_butlast dest: in_set_butlastD)
    then have "card (set (j # butlast ?ks)) = length (j # butlast ?ks)"
      by (rule distinct_card)
    moreover have "set (j # butlast ?ks) \<subseteq> B"
      using pre sub tw by auto
    ultimately have "length (j # butlast ?ks) \<le> card B"
      using card_mono [OF fin] by metis
    then show False using card len by simp
  qed
  have "set (takeWhile (\<lambda>x. x \<noteq> k) (butlast ?ks)) \<subseteq> A"
    using pre takeWhile_butlast_subset [of "\<lambda>x. x \<noteq> k" ?ks] by blast
  moreover have "distinct (butlast ?ks)" using dist by (rule distinct_butlast)
  moreover have "j \<notin> set (butlast ?ks)" using jc by (auto dest: in_set_butlastD)
  ultimately have "lru_inv k (insert j A) (lru_miss j v c)"
    using True kbl jk len lru_maxsize_pos by (auto simp: lru_inv_def lru_miss_def map_butlast)
  moreover have "map_of (lru_miss j v c) k = map_of c k"
    using True jk kbl dist by (simp add: lru_miss_def map_of_butlast)
  ultimately show ?thesis by simp
qed

lemma clbuild_other:
  assumes inv: "lru_inv k A (build_cache s)" and jk: "(thr, prg, name) \<noteq> k"
    and fin: "finite B" and sub: "insert (thr, prg, name) A \<subseteq> B" and card: "card B < lru_maxsize"
  shows "lru_inv k (insert (thr, prg, name) A) (build_cache (snd (clbuild thr prg name s))) \<and>
         map_of (build_cache (snd (clbuild thr prg name s))) k = map_of (build_cache s) k"
proof (cases "map_of (build_cache s) (thr, prg, name)")
  case None
  then have "(thr, prg, name) \<notin> set (map fst (build_cache s))"
    by (simp add: map_of_eq_None_iff)
  then show ?thesis
    using lru_inv_miss [OF inv jk _ fin sub card] None by (simp add: clbuild_def Let_def)
next
  case (Some h)
  then have "(thr, prg, name) \<in> set (map fst (build_cache s))"
    by (metis map_of_eq_None_iff option.distinct(1) set_map)
  then show ?thesis
    using lru_inv_hit_other [OF inv jk] Some jk by (simp add: clbuild_def Let_def map_of_lru_hit_other)
qed

lemma clbuild_same:
  assumes inv: "lru_inv (thr, prg, name) A (build_cache s)"
  shows "lru_inv (thr, prg, name) A' (build_cache (snd (clbuild thr prg name s))) \<and>
         map_of (build_cache (snd (clbuild thr prg name s))) (thr, prg, name)
           = map_of (build_cache s) (thr, prg, name)"
proof -
  obtain h where h: "map_of (build_cache s) (thr, prg, name) = Some h"
    using inv by (metis lru_inv_def map_of_eq_None_iff not_None_eq set_map)
  then show ?thesis
    using lru_inv_hit_same [OF inv] by (simp add: clbuild_def Let_def lru_hit_def)
qed

lemma clbuild_all_keeps:
  assumes "lru_inv k A (build_cache s)" "finite A" "card (A \<union> (set ks - {k})) < lru_maxsize"
  shows "map_of (build_cache (clbuild_all ks s)) k = map_of (build_cache s) k"
  using assms
proof (induction ks arbitrary: s A)
  case Nil
  then show ?case by simp
next
  case (Cons j js)
  obtain thr prg name where j: "j = (thr, prg, name)" by (cases j) auto
  let ?s = "snd (clbuild thr prg name s)"
  show ?case
  proof (cases "j = k")
    case True
    have "lru_inv k A (build_cache ?s) \<and>
          map_of (build_cache ?s) k = map_of (build_cache s) k"
      using clbuild_same [of thr prg name A s A] Cons.prems(1) True j by simp
    moreover have "card (A \<union> (set js - {k})) < lru_maxsize"
      using Cons.prems(3) True by (simp add: insert_Diff_if)
    ultimately show ?thesis
      using Cons.IH [of A ?s] Cons.prems(2) j by simp
  next
    case False
    let ?B = "A \<union> (set (j # js) - {k})"
    have "finite ?B" using Cons.prems(2) by simp
    moreover have "insert j A \<subseteq> ?B" using False by auto
    ultimately have "lru_inv k (insert j A) (build_cache ?s) \<and>
          map_of (build_cache ?s) k = map_of (build_cache s) k"
      using clbuild_other [of k A s thr prg name ?B] Cons.prems(1,3) False j by simp
    moreover have "insert j A \<union> (set js - {k}) = ?B" using False by auto
    ultimately show ?thesis
      using Cons.IH [of "insert j A" ?s] Cons.prems(2,3) j by simp
  qed
qed

lemma clbuild_cached:
  "map_of (build_cache (snd (clbuild thr prg name s))) (thr, prg, name) = Some (fst (clbuild thr prg name s))"
  by (simp add: clbuild_def Let_def lru_hit_def lru_miss_def split: option.splits)

lemma clbuild_inv:
  assumes "distinct (map fst (build_cache s))" "length (build_cache s) \<le> lru_maxsize"
  shows "lru_inv (thr, prg, name) {} (build_cache (snd (clbuild thr prg name s)))"
proof (cases "map_of (build_cache s) (thr, prg, name)")
  case None
  then have "(thr, prg, name) \<notin> set (map fst (build_cache s))"
    by (simp add: map_of_eq_None_iff)
  then show ?thesis
    using assms None lru_maxsize_pos
    by (auto simp: clbuild_def Let_def lru_inv_def lru_miss_def distinct_butlast map_butlast
             dest: in_set_butlastD)
next
  case (Some h)
  then have "(thr, prg, name) \<in> set (map fst (build_cache s))"
    by (metis map_of_eq_None_iff option.distinct(1) set_map)
  then show ?thesis
    using assms Some length_filter_present [of "(thr, prg, name)" "build_cache s"]
    by (auto simp: clbuild_def Let_def lru_inv_def lru_hit_def map_fst_filter)
qed


lemma horner_idx_snoc:
  assumes "\<forall>(d, c) \<in> set xs. 0 \<le> d"
  shows "horner_idx sel (xs @ [(d, c)]) g e =
         (if sel c then g mod d + d * horner_idx sel xs (g div d) e else horner_idx sel xs (g div d) e)"
  using assms
proof (induction xs arbitrary: e)
  case Nil
  then show ?case by simp
next
  case (Cons a xs)
  obtain d' c' where a: "a = (d', c')" by (cases a)
  let ?P = "prod_list (map fst xs)"
  have "0 \<le> ?P" using Cons.prems by (intro prod_list_nonneg) auto
  let ?e = "if sel c' then ((g div d) div ?P) mod d' + d' * e else e"
  have eq: "g div (?P * d) = g div d div ?P"
    using \<open>0 \<le> ?P\<close> zdiv_zmult2_eq [of ?P g d] by (simp only: mult.commute [of ?P d])
  have "horner_idx sel ((a # xs) @ [(d, c)]) g e
        = horner_idx sel (xs @ [(d, c)]) g (if sel c' then (g div (?P * d)) mod d' + d' * e else e)"
    by (simp add: a)
  also have "\<dots> = horner_idx sel (xs @ [(d, c)]) g ?e"
    by (simp only: eq)
  also have "\<dots> = (if sel c then g mod d + d * horner_idx sel xs (g div d) ?e
                  else horner_idx sel xs (g div d) ?e)"
    using Cons.prems by (intro Cons.IH) simp
  also have "\<dots> = (if sel c then g mod d + d * horner_idx sel (a # xs) (g div d) e
                  else horner_idx sel (a # xs) (g div d) e)"
    by (simp add: a)
  finally show ?case .
qed

lemma horner_digit: "\<forall>(d, c) \<in> set xs. 0 \<le> d \<Longrightarrow> horner_idx sel xs g 0 = digit_idx sel (rev xs) g"
proof (induction xs arbitrary: g rule: rev_induct)
  case Nil
  then show ?case by simp
next
  case (snoc a xs)
  obtain d c where a: "a = (d, c)" by (cases a)
  then show ?case using snoc by (simp add: horner_idx_snoc)
qed

lemma tl_cumprod_back_nth:
  "Suc i < length d \<Longrightarrow> tl (cumprod_back d) ! i = prod_list (drop (Suc i) d)"
  by (simp add: cumprod_back_def nth_tl)

lemma binop_idx_horner_aux:
  assumes "length flags = length d" "k \<le> length d"
  shows "foldl (\<lambda>e i. if flags ! i
                    then (g div (if i < length flags - 1 then tl (cumprod_back d) ! i else 1)) mod (d ! i) + d ! i * e
                    else e) e [k..<length flags]
         = horner_idx id (drop k (zip d flags)) g e"
proof -
  define step where "step = (\<lambda>e i. if flags ! i
                    then (g div (if i < length flags - 1 then tl (cumprod_back d) ! i else 1)) mod (d ! i) + d ! i * e
                    else e)"
  have "foldl step e [k..<length flags] = horner_idx id (drop k (zip d flags)) g e"
    using assms
  proof (induction "length d - k" arbitrary: k e)
    case 0
    then show ?case by simp
  next
    case (Suc n)
    then have k: "k < length d" by simp
    have p: "(if k < length flags - 1 then tl (cumprod_back d) ! k else 1) = prod_list (drop (Suc k) d)"
      using k Suc.prems(1) by (cases "Suc k < length d") (auto simp: tl_cumprod_back_nth)
    have "k < length (zip d flags)" using k Suc.prems(1) by simp
    then have dr: "drop k (zip d flags) = (d ! k, flags ! k) # drop (Suc k) (zip d flags)"
      using Cons_nth_drop_Suc [of k "zip d flags"] by simp
    have up: "[k..<length flags] = k # [Suc k..<length flags]"
      using k Suc.prems(1) by (simp add: upt_conv_Cons)
    have m: "map fst (drop (Suc k) (zip d flags)) = drop (Suc k) d"
      using Suc.prems(1) by (simp add: drop_map[symmetric])
    have st: "step e k = (if flags ! k then (g div prod_list (drop (Suc k) d)) mod (d ! k) + d ! k * e else e)"
      unfolding step_def p by simp
    have "foldl step e [k..<length flags] = foldl step (step e k) [Suc k..<length flags]"
      by (subst up) simp
    also have "\<dots> = horner_idx id (drop (Suc k) (zip d flags)) g (step e k)"
      using Suc.hyps(1) [of "Suc k" "step e k"] Suc.hyps(2) Suc.prems k by simp
    also have "\<dots> = horner_idx id (drop k (zip d flags)) g e"
      unfolding dr st by (simp add: m)
    finally show ?case .
  qed
  then show ?thesis by (simp add: step_def)
qed

lemma binop_idx_horner:
  "length flags = length d \<Longrightarrow>
   binop_idx flags d (tl (cumprod_back d)) g = horner_idx id (zip d flags) g 0"
  using binop_idx_horner_aux [of flags d 0 g 0] by (simp add: binop_idx_def)

lemma digit_idx_merge:
  assumes "0 \<le> D"
  shows "digit_idx sel ((D * d, c) # R) g = digit_idx sel ((d, c) # (D, c) # R) g"
proof -
  have 1: "g mod (d * D) = d * (g div d mod D) + g mod d"
    using assms by (rule zmod_zmult2_eq)
  have 2: "g div (d * D) = g div d div D"
    using assms by (rule zdiv_zmult2_eq)
  have "digit_idx sel ((D * d, c) # R) g
        = (if sel c then g mod (d * D) + d * D * digit_idx sel R (g div (d * D))
           else digit_idx sel R (g div (d * D)))"
    by (simp add: mult.commute [of D d])
  also have "\<dots> = (if sel c then (d * (g div d mod D) + g mod d) + d * D * digit_idx sel R (g div d div D)
                  else digit_idx sel R (g div d div D))"
    by (simp only: 1 2)
  also have "\<dots> = digit_idx sel ((d, c) # (D, c) # R) g"
    by (simp add: algebra_simps)
  finally show ?thesis .
qed

lemma push_all_snoc: "push_all (rs @ [(d, c)]) = push d c (push_all rs)"
  by (simp add: push_all_def)

lemma push_all_inv:
  assumes "raw_ok rs"
  shows "length (fst (push_all rs)) = length (snd (push_all rs)) \<and>
         (\<forall>d \<in> set (fst (push_all rs)). 0 < d) \<and>
         prod_list (fst (push_all rs)) = prod_list (map fst rs) \<and>
         (\<forall>g. digit_idx sel (rev (zip (fst (push_all rs)) (snd (push_all rs)))) g = digit_idx sel (rev rs) g)"
  using assms
proof (induction rs rule: rev_induct)
  case Nil
  then show ?case by (simp add: push_all_def)
next
  case (snoc a rs)
  obtain d c where a: "a = (d, c)" by (cases a)
  obtain dl cl where p: "push_all rs = (dl, cl)" by (cases "push_all rs")
  have ok: "raw_ok rs" and d: "0 < d" and c1: "c = (False, False) \<Longrightarrow> d = 1"
    using snoc.prems a by (auto simp: raw_ok_def)
  have IH: "length dl = length cl" "\<forall>d \<in> set dl. 0 < d" "prod_list dl = prod_list (map fst rs)"
    "\<And>g. digit_idx sel (rev (zip dl cl)) g = digit_idx sel (rev rs) g"
    using snoc.IH [OF ok] p by auto
  show ?case
  proof (cases "cl \<noteq> [] \<and> last cl = c")
    case True
    then obtain cl' where cl: "cl = cl' @ [c]" by (metis append_butlast_last_id)
    then obtain dl' D where dl: "dl = dl' @ [D]"
      using IH(1) by (metis length_0_conv rev_exhaust snoc_eq_iff_butlast)
    have len: "length dl' = length cl'" using IH(1) cl dl by simp
    have D: "0 < D" using IH(2) dl by simp
    have pn: "push_all (rs @ [a]) = (dl' @ [D * d], cl)"
      using True by (simp add: a push_all_snoc p push_def dl)
    have "digit_idx sel (rev (zip (dl' @ [D * d]) cl)) g = digit_idx sel (rev (rs @ [a])) g" for g
    proof -
      have "digit_idx sel (rev (zip (dl' @ [D * d]) cl)) g
            = digit_idx sel ((D * d, c) # rev (zip dl' cl')) g"
        using len by (simp add: cl)
      also have "\<dots> = digit_idx sel ((d, c) # (D, c) # rev (zip dl' cl')) g"
        using D by (intro digit_idx_merge) simp
      also have "\<dots> = digit_idx sel ((d, c) # rev (zip dl cl)) g"
        using len by (simp add: cl dl)
      also have "\<dots> = digit_idx sel (rev (rs @ [a])) g"
        by (simp add: a IH(4))
      finally show ?thesis .
    qed
    moreover have "prod_list (dl' @ [D * d]) = prod_list (map fst (rs @ [a]))"
      using IH(3) by (simp add: dl a)
    moreover have "\<forall>x \<in> set (dl' @ [D * d]). 0 < x"
      using IH(2) D d by (simp add: dl)
    moreover have "length (dl' @ [D * d]) = length cl" using IH(1) dl by simp
    ultimately show ?thesis unfolding pn by simp
  next
    case False
    show ?thesis
    proof (cases "c = (False, False)")
      case True
      then have pn: "push_all (rs @ [a]) = (dl, cl)"
        using False by (auto simp: a push_all_snoc p push_def)
      show ?thesis unfolding pn using IH c1 [OF True] by (simp add: a)
    next
      case nff: False
      then have pn: "push_all (rs @ [a]) = (dl @ [d], cl @ [c])"
        using False by (auto simp: a push_all_snoc p push_def)
      show ?thesis unfolding pn using IH d by (simp add: a)
    qed
  qed
qed

lemma digit_idx_bounds:
  assumes "\<forall>(d, c) \<in> set L. 0 < d"
  shows "0 \<le> digit_idx sel L g \<and>
         digit_idx sel L g < prod_list (map (\<lambda>(d, c). if sel c then d else 1) L)"
  using assms
proof (induction L arbitrary: g)
  case Nil
  then show ?case by simp
next
  case (Cons a L)
  obtain d c where a: "a = (d, c)" by (cases a)
  let ?r = "digit_idx sel L (g div d)"
  let ?P = "prod_list (map (\<lambda>(d, c). if sel c then d else 1) L)"
  have d: "0 < d" using Cons.prems a by simp
  have r: "0 \<le> ?r" "?r < ?P" using Cons.IH [of "g div d"] Cons.prems by auto
  show ?case
  proof (cases "sel c")
    case True
    have "0 \<le> g mod d" "g mod d < d" using d by simp_all
    moreover have "0 \<le> d * ?r" using d r(1) by simp
    moreover have "d * (?r + 1) \<le> d * ?P" using d r(2) by (intro mult_left_mono) auto
    ultimately have "0 \<le> g mod d + d * ?r \<and> g mod d + d * ?r < d * ?P"
      by (simp add: algebra_simps)
    then show ?thesis using True by (simp add: a)
  next
    case False
    then show ?thesis using r by (simp add: a)
  qed
qed

lemma flat_index_snoc:
  "length shp = length ms \<Longrightarrow> flat_index (shp @ [d]) (ms @ [m]) = flat_index shp ms * d + m"
  by (simp add: flat_index_def)

lemma raw_dims_rev:
  "length a = length b \<Longrightarrow> raw_dims (rev a) (rev b) = rev (raw_dims a b)"
  by (simp add: raw_dims_def zip_rev rev_map)

lemma digit_flat_rev:
  assumes "length sx = length sy" "length sy = length ms"
    and "\<forall>d \<in> set sx. 0 < d" "\<forall>d \<in> set sy. 0 < d"
    and "broadcastable sx sy" "in_shape (map2 max sx sy) ms"
  shows "digit_idx fst (raw_dims sx sy) (flat_index (rev (map2 max sx sy)) (rev ms))
           = flat_index (rev sx) (rev (broadcast_from sx ms)) \<and>
         digit_idx snd (raw_dims sx sy) (flat_index (rev (map2 max sx sy)) (rev ms))
           = flat_index (rev sy) (rev (broadcast_from sy ms))"
  using assms
proof (induction sx sy ms rule: list_induct3)
  case Nil
  then show ?case by (simp add: raw_dims_def flat_index_def broadcast_from_def)
next
  case (Cons a sx b sy m ms)
  let ?M = "max a b"
  let ?F = "flat_index (rev (map2 max sx sy)) (rev ms)"
  have ab: "0 < a" "0 < b" "a = 1 \<or> b = 1 \<or> a = b" and m: "0 \<le> m" "m < ?M"
    using Cons.prems by (auto simp: broadcastable_def in_shape_def)
  have IH: "digit_idx fst (raw_dims sx sy) ?F = flat_index (rev sx) (rev (broadcast_from sx ms))"
       "digit_idx snd (raw_dims sx sy) ?F = flat_index (rev sy) (rev (broadcast_from sy ms))"
    using Cons.IH Cons.prems by (auto simp: broadcastable_def in_shape_def)
  have fl: "flat_index (rev (map2 max (a # sx) (b # sy))) (rev (m # ms)) = ?F * ?M + m"
    using Cons.hyps by (simp add: flat_index_snoc)
  have dv: "(?F * ?M + m) div ?M = ?F" and md: "(?F * ?M + m) mod ?M = m"
    using m by simp_all
  have lb: "length (broadcast_from sx ms) = length sx" "length (broadcast_from sy ms) = length sy"
    using Cons.hyps by (simp_all add: broadcast_from_def)
  have x: "digit_idx fst (raw_dims (a # sx) (b # sy)) (?F * ?M + m)
           = flat_index (rev (a # sx)) (rev (broadcast_from (a # sx) (m # ms)))"
  proof (cases "1 < a")
    case True
    then have "?M = a" using ab by auto
    then show ?thesis
      using True dv md IH(1) lb by (simp add: raw_dims_def broadcast_from_def flat_index_snoc)
  next
    case False
    then have "a = 1" using ab by simp
    then show ?thesis
      using dv IH(1) lb by (simp add: raw_dims_def broadcast_from_def flat_index_snoc)
  qed
  have y: "digit_idx snd (raw_dims (a # sx) (b # sy)) (?F * ?M + m)
           = flat_index (rev (b # sy)) (rev (broadcast_from (b # sy) (m # ms)))"
  proof (cases "1 < b")
    case True
    then have "?M = b" using ab by auto
    then show ?thesis
      using True dv md IH(2) lb by (simp add: raw_dims_def broadcast_from_def flat_index_snoc)
  next
    case False
    then have "b = 1" using ab by simp
    then show ?thesis
      using dv IH(2) lb by (simp add: raw_dims_def broadcast_from_def flat_index_snoc)
  qed
  show ?case using x y by (simp only: fl) 
qed

lemma broadcast_from_rev:
  "length sx = length ms \<Longrightarrow> broadcast_from (rev sx) (rev ms) = rev (broadcast_from sx ms)"
  by (simp add: broadcast_from_def zip_rev rev_map)

lemma in_shape_rev: "in_shape shp ms \<Longrightarrow> in_shape (rev shp) (rev ms)"
  by (simp add: in_shape_def)

lemma broadcastable_rev: "broadcastable sx sy \<Longrightarrow> broadcastable (rev sx) (rev sy)"
  by (simp add: broadcastable_def)

lemma map2_rev: "length a = length b \<Longrightarrow> map2 f (rev a) (rev b) = rev (map2 f a b)"
  by (simp add: zip_rev rev_map)

lemma digit_flat:
  assumes "length sx = length sy" "length sy = length ms"
    and "\<forall>d \<in> set sx. 0 < d" "\<forall>d \<in> set sy. 0 < d"
    and "broadcastable sx sy" "in_shape (map2 max sx sy) ms"
  shows "digit_idx fst (rev (raw_dims sx sy)) (flat_index (map2 max sx sy) ms)
           = flat_index sx (broadcast_from sx ms)"
    and "digit_idx snd (rev (raw_dims sx sy)) (flat_index (map2 max sx sy) ms)
           = flat_index sy (broadcast_from sy ms)"
proof -
  have "in_shape (map2 max (rev sx) (rev sy)) (rev ms)"
    using assms(1,6) in_shape_rev by (simp add: map2_rev)
  then have *: "digit_idx fst (raw_dims (rev sx) (rev sy)) (flat_index (rev (map2 max (rev sx) (rev sy))) (rev (rev ms)))
           = flat_index (rev (rev sx)) (rev (broadcast_from (rev sx) (rev ms))) \<and>
         digit_idx snd (raw_dims (rev sx) (rev sy)) (flat_index (rev (map2 max (rev sx) (rev sy))) (rev (rev ms)))
           = flat_index (rev (rev sy)) (rev (broadcast_from (rev sy) (rev ms)))"
    using assms by (intro digit_flat_rev) (simp_all add: broadcastable_rev)
  show "digit_idx fst (rev (raw_dims sx sy)) (flat_index (map2 max sx sy) ms)
           = flat_index sx (broadcast_from sx ms)"
    using * assms(1,2) by (simp add: raw_dims_rev map2_rev broadcast_from_rev)
  show "digit_idx snd (rev (raw_dims sx sy)) (flat_index (map2 max sx sy) ms)
           = flat_index sy (broadcast_from sy ms)"
    using * assms(1,2) by (simp add: raw_dims_rev map2_rev broadcast_from_rev)
qed

lemma flat_index_bounds:
  "in_shape shp ms \<Longrightarrow> 0 \<le> flat_index (rev shp) (rev ms) \<and> flat_index (rev shp) (rev ms) < prod_list shp"
proof (induction shp ms rule: list_induct2')
  case 1
  then show ?case by (simp add: flat_index_def)
next
  case (4 d shp m ms)
  then have len: "length shp = length ms" by (auto simp: in_shape_def dest: list_all2_lengthD)
  let ?F = "flat_index (rev shp) (rev ms)"
  have F: "0 \<le> ?F" "?F < prod_list shp" and m: "0 \<le> m" "m < d"
    using 4 by (auto simp: in_shape_def)
  have "(?F + 1) * d \<le> prod_list shp * d"
    using F m by (intro mult_right_mono) auto
  then have "?F * d + m < d * prod_list shp" using m by (simp add: algebra_simps)
  moreover have "0 \<le> ?F * d + m" using F m by simp
  ultimately show ?case using len by (simp add: flat_index_snoc)
qed (simp_all add: in_shape_def)

lemma prod_list_rev_int: "prod_list (rev xs) = prod_list (xs :: int list)"
  by (induction xs) (simp_all add: mult.commute)

lemma flat_index_in_range:
  assumes "in_shape shp ms"
  shows "0 \<le> flat_index shp ms" "flat_index shp ms < prod_list shp"
  using flat_index_bounds [OF in_shape_rev [OF assms]] by (simp_all add: prod_list_rev_int)

lemma run_threads_append:
  "run_threads buf (ws @ vs) = (case run_threads buf ws of None \<Rightarrow> None | Some b \<Rightarrow> run_threads b vs)"
  by (induction buf ws rule: run_threads.induct) auto

lemma run_threads_length:
  "run_threads buf ws = Some b \<Longrightarrow> length b = length buf"
  by (induction buf ws arbitrary: b rule: run_threads.induct) (auto split: if_splits)

lemma run_threads_ident_aux:
  "n \<le> length buf \<Longrightarrow>
   run_threads buf (map (\<lambda>g. Some (g, f g)) (map int [0..<n])) = Some (map f (map int [0..<n]) @ drop n buf)"
proof (induction n)
  case 0
  then show ?case by simp
next
  case (Suc n)
  then have "n < length buf" by simp
  then have "(map f (map int [0..<n]) @ drop n buf)[n := f (int n)]
             = map f (map int [0..<n]) @ f (int n) # drop (Suc n) buf"
    by (simp add: list_update_append upd_conv_take_nth_drop)
  then show ?case using Suc by (simp add: run_threads_append)
qed

lemma run_threads_ident:
  assumes "\<And>g. 0 \<le> g \<Longrightarrow> g < int (length buf) \<Longrightarrow> body g = Some (g, f g)"
  shows "run_threads buf (map body (gids (int (length buf)))) = Some (map f (gids (int (length buf))))"
proof -
  have "map body (map int [0..<length buf]) = map (\<lambda>g. Some (g, f g)) (map int [0..<length buf])"
    using assms by simp
  then show ?thesis using run_threads_ident_aux [of "length buf" buf f]
    by (simp only: drop_all append_Nil2 le_refl gids_def nat_int)
qed

lemma gids_nth: "0 \<le> g \<Longrightarrow> g < n \<Longrightarrow> gids n ! nat g = g"
  by (simp add: gids_def)

lemma length_gids: "length (gids n) = nat n"
  by (simp add: gids_def)

lemma clbuild_fields:
  "mem (snd (clbuild thr prg name s)) = mem s"
  "fresh (snd (clbuild thr prg name s)) = fresh s"
  "uploads (snd (clbuild thr prg name s)) = uploads s"
  "launches (snd (clbuild thr prg name s)) = launches s"
  "binop_cache (snd (clbuild thr prg name s)) = binop_cache s"
  by (simp_all add: clbuild_def Let_def split: option.splits)

lemma clbuild_ksrc:
  "cache_ok s \<Longrightarrow> ksrc (fst (clbuild thr prg name s)) = prg"
  by (auto simp: clbuild_def Let_def cache_ok_def split: option.splits dest!: map_of_SomeD)

lemma lru_miss_set: "set (lru_miss k v c) \<subseteq> insert (k, v) (set c)"
  by (auto simp: lru_miss_def dest: in_set_butlastD)

lemma lru_hit_set: "set (lru_hit k v c) \<subseteq> insert (k, v) (set c)"
  by (auto simp: lru_hit_def)

lemma clbuild_cache_ok:
  assumes "cache_ok s"
  shows "cache_ok (snd (clbuild thr prg name s))"
proof (cases "map_of (build_cache s) (thr, prg, name)")
  case None
  then show ?thesis
    using assms lru_miss_set [of "(thr, prg, name)" "Kernel (compiled s) prg name" "build_cache s"]
    by (auto simp: clbuild_def Let_def cache_ok_def)
next
  case (Some h)
  then have "((thr, prg, name), h) \<in> set (build_cache s)" by (rule map_of_SomeD)
  then show ?thesis
    using assms Some lru_hit_set [of "(thr, prg, name)" h "build_cache s"]
    by (auto simp: clbuild_def cache_ok_def)
qed

lemma get_binop_prg_fields:
  "mem (snd (get_binop_prg thr code cs s)) = mem s"
  "fresh (snd (get_binop_prg thr code cs s)) = fresh s"
  "uploads (snd (get_binop_prg thr code cs s)) = uploads s"
  "launches (snd (get_binop_prg thr code cs s)) = launches s"
  using clbuild_fields [of thr "BinopSrc code cs" "''binop''" s]
  by (auto simp: get_binop_prg_def split: option.splits prod.splits)

lemma get_binop_prg_ok:
  assumes "cache_ok s"
  shows "ksrc (fst (get_binop_prg thr code cs s)) = BinopSrc code cs \<and>
         cache_ok (snd (get_binop_prg thr code cs s))"
proof (cases "map_of (binop_cache s) (thr, code, cs)")
  case None
  obtain h s1 where b: "clbuild thr (BinopSrc code cs) ''binop'' s = (h, s1)"
    by (cases "clbuild thr (BinopSrc code cs) ''binop'' s")
  have h: "ksrc h = BinopSrc code cs" using clbuild_ksrc [OF assms, of thr "BinopSrc code cs" "''binop''"] b by simp
  have s1: "cache_ok s1" using clbuild_cache_ok [OF assms, of thr "BinopSrc code cs" "''binop''"] b by simp
  have "cache_ok (s1\<lparr>binop_cache := lru_miss (thr, code, cs) h (binop_cache s1)\<rparr>)"
    using s1 h lru_miss_set [of "(thr, code, cs)" h "binop_cache s1"]
    by (auto simp: cache_ok_def)
  then show ?thesis using None b h by (simp add: get_binop_prg_def)
next
  case (Some h)
  then have in_c: "((thr, code, cs), h) \<in> set (binop_cache s)" by (rule map_of_SomeD)
  then have h: "ksrc h = BinopSrc code cs" using assms by (auto simp: cache_ok_def)
  have "cache_ok (s\<lparr>binop_cache := lru_hit (thr, code, cs) h (binop_cache s)\<rparr>)"
    using assms h lru_hit_set [of "(thr, code, cs)" h "binop_cache s"]
    by (auto simp: cache_ok_def)
  then show ?thesis using Some h by (simp add: get_binop_prg_def)
qed

lemma digit_idx_map_sel:
  "digit_idx id (map (\<lambda>(d, c). (d, sel c)) L) g = digit_idx sel L g"
  by (induction L arbitrary: g) auto

lemma zip_map_sel: "zip d (map sel cs) = map (\<lambda>(d, c). (d, sel c)) (zip d cs)"
  by (simp add: zip_map2 case_prod_beta)

lemma binop_idx_digit:
  assumes "length cs = length d" "\<forall>x \<in> set d. 0 < x"
  shows "binop_idx (map sel cs) d (tl (cumprod_back d)) g = digit_idx sel (rev (zip d cs)) g"
proof -
  have nn: "\<forall>(x, c) \<in> set (zip d (map sel cs)). 0 \<le> x"
    using assms(2) by (auto dest!: set_zip_leftD)
  have "binop_idx (map sel cs) d (tl (cumprod_back d)) g = horner_idx id (zip d (map sel cs)) g 0"
    using assms(1) by (simp add: binop_idx_horner)
  also have "\<dots> = digit_idx id (rev (zip d (map sel cs))) g"
    using nn by (rule horner_digit)
  also have "\<dots> = digit_idx id (map (\<lambda>(d, c). (d, sel c)) (rev (zip d cs))) g"
    by (simp only: zip_map_sel rev_map)
  also have "\<dots> = digit_idx sel (rev (zip d cs)) g"
    by (rule digit_idx_map_sel)
  finally show ?thesis .
qed

lemma push_fold_indices:
  assumes "length sx = n" "length sy = n"
  shows "foldl (\<lambda>dc i. push (max (sx ! i) (sy ! i)) (1 < sx ! i, 1 < sy ! i) dc) ([], []) [0..<n]
         = push_all (raw_dims sx sy)"
proof -
  have "raw_dims sx sy = map (\<lambda>i. (max (sx ! i) (sy ! i), (1 < sx ! i, 1 < sy ! i))) [0..<n]"
    using assms by (intro nth_equalityI) (simp_all add: raw_dims_def)
  then show ?thesis
    by (simp add: push_all_def foldl_map)
qed

lemma raw_ok_raw_dims:
  assumes "\<forall>d \<in> set sx. 0 < d" "\<forall>d \<in> set sy. 0 < d"
  shows "raw_ok (raw_dims sx sy)"
  using assms by (fastforce simp: raw_ok_def raw_dims_def dest: set_zip_leftD set_zip_rightD)

lemma prod_flagged:
  assumes "\<forall>d \<in> set sx. 0 < d" "\<forall>d \<in> set sy. 0 < d" "broadcastable sx sy"
  shows "prod_list (map (\<lambda>(d, c). if fst c then d else 1) (raw_dims sx sy)) = prod_list sx \<and>
         prod_list (map (\<lambda>(d, c). if snd c then d else 1) (raw_dims sx sy)) = prod_list sy"
  using assms(3,1,2) unfolding broadcastable_def
proof (induction sx sy rule: list_all2_induct)
  case Nil
  then show ?case by (simp add: raw_dims_def)
next
  case (Cons a sx b sy)
  then have "0 < a" "0 < b" "a = 1 \<or> b = 1 \<or> a = b" by auto
  then have "(if 1 < a then max a b else 1) = a" "(if 1 < b then max a b else 1) = b" by auto
  then show ?case using Cons by (simp add: raw_dims_def)
qed

lemma prod_list_pad_ones: "prod_list (pad_ones n shp) = prod_list shp"
  by (simp add: pad_ones_def)

lemma length_pad_ones: "length shp \<le> n \<Longrightarrow> length (pad_ones n shp) = n"
  by (simp add: pad_ones_def)

lemma set_pad_ones: "\<forall>d \<in> set shp. 0 < d \<Longrightarrow> \<forall>d \<in> set (pad_ones n shp). (0::int) < d"
  by (auto simp: pad_ones_def)

lemma hd_cumprod_back: "(if d \<noteq> [] then hd (cumprod_back d) else 1) = prod_list d"
  by (cases d) (simp_all add: cumprod_back_def hd_map del: upt_Suc)

lemma prod_list_pos_int: "\<forall>d \<in> set xs. (0::int) < d \<Longrightarrow> 0 < prod_list xs"
  by (induction xs) simp_all

lemma buffer_new_ok:
  assumes "\<forall>d \<in> set shp. 0 \<le> d"
  shows "buffer_new F shp zero s =
         (Inr \<lparr>shape = shp, cl = length (mem s)\<rparr>,
          s\<lparr>mem := mem s @ [if zero then replicate (nat (prod_list shp)) (fzero F)
                              else map (fresh s) [0..<nat (prod_list shp)]]\<rparr>)"
proof -
  have "0 \<le> prod_list shp" using assms by (intro prod_list_nonneg) auto
  then show ?thesis using assms by (auto simp: buffer_new_def)
qed

lemma launch_ident:
  assumes "out < length (mem s)" "int (length (mem s ! out)) = n"
    and "\<And>g. 0 \<le> g \<Longrightarrow> g < n \<Longrightarrow> body g = Some (g, f g)"
  shows "launch k out (map body (gids n)) s =
         (Inr (), s\<lparr>mem := (mem s)[out := map f (gids n)], launches := launches s @ [k]\<rparr>)"
proof -
  have "run_threads (mem s ! out) (map body (gids (int (length (mem s ! out)))))
        = Some (map f (gids (int (length (mem s ! out)))))"
    using assms(2,3) by (intro run_threads_ident) auto
  then show ?thesis using assms(1,2) by (simp add: launch_def)
qed

lemma contents_wf: "wf_buffer s b \<Longrightarrow> contents s b = mem s ! cl b"
  by (simp add: contents_def wf_buffer_def)

lemma binary_op_ok:
  fixes x y :: buffer
  defines "n \<equiv> max (length (shape x)) (length (shape y))"
  defines "sx \<equiv> pad_ones n (shape x)" and "sy \<equiv> pad_ones n (shape y)"
  assumes wx: "wf_buffer s x" and wy: "wf_buffer s y" and co: "cache_ok s"
    and bc: "broadcastable sx sy"
  shows "\<exists>prg s'. binary_op F thr code x y s
            = (Inr \<lparr>shape = map2 max sx sy, cl = length (mem s)\<rparr>, s') \<and>
          mem s' = mem s @ [binop_data F code sx sy (contents s x) (contents s y)] \<and>
          launches s' = launches s @ [prg] \<and> ksrc prg = BinopSrc code (snd (push_all (raw_dims sx sy))) \<and>
          fresh s' = fresh s \<and> uploads s' = uploads s \<and> cache_ok s'"
proof -
  let ?raw = "raw_dims sx sy"
  let ?ret = "map2 max sx sy"
  obtain dimlist complist where pa: "push_all ?raw = (dimlist, complist)"
    by (cases "push_all ?raw")
  have lx: "length sx = n" and ly: "length sy = n"
    by (simp_all add: sx_def sy_def n_def length_pad_ones)
  have px: "\<forall>d \<in> set sx. 0 < d" and py: "\<forall>d \<in> set sy. 0 < d"
    using wx wy set_pad_ones [of "shape x" n] set_pad_ones [of "shape y" n]
    by (simp_all add: sx_def sy_def wf_buffer_def)
  have fold: "foldl (\<lambda>dc i. push (max (sx ! i) (sy ! i)) (1 < sx ! i, 1 < sy ! i) dc) ([], []) [0..<n]
              = (dimlist, complist)"
    using push_fold_indices [OF lx ly] pa by simp
  have rok: "raw_ok ?raw" using px py by (rule raw_ok_raw_dims)
  have inv: "length dimlist = length complist" "\<forall>d \<in> set dimlist. 0 < d"
      "prod_list dimlist = prod_list (map fst ?raw)"
      "\<And>sel g. digit_idx sel (rev (zip dimlist complist)) g = digit_idx sel (rev ?raw) g"
    using push_all_inv [OF rok] pa by auto
  have mf: "map fst ?raw = ?ret"
    by (simp add: raw_dims_def case_prod_beta)
  let ?N = "prod_list ?ret"
  have pret: "\<forall>d \<in> set ?ret. 0 < d"
    using px py by (auto dest!: set_zip_leftD)
  have N: "0 < ?N" using pret by (rule prod_list_pos_int)
  have gs: "(if dimlist \<noteq> [] then hd (cumprod_back dimlist) else 1) = ?N"
    using inv(3) mf by (simp only: hd_cumprod_back)
  obtain prg s1 where gp: "get_binop_prg thr code complist s = (prg, s1)"
    by (cases "get_binop_prg thr code complist s")
  have s1: "mem s1 = mem s" "fresh s1 = fresh s" "uploads s1 = uploads s" "launches s1 = launches s"
    using get_binop_prg_fields [of thr code complist s] gp by simp_all
  have prg: "ksrc prg = BinopSrc code complist" and co1: "cache_ok s1"
    using get_binop_prg_ok [OF co, of thr code complist] gp by simp_all
  define s2 where "s2 = s1\<lparr>mem := mem s1 @ [replicate (nat ?N) (fzero F)]\<rparr>"
  let ?r = "\<lparr>shape = ?ret, cl = length (mem s)\<rparr>"
  have bn: "buffer_new F ?ret True s1 = (Inr ?r, s2)"
    using pret by (subst buffer_new_ok) (auto simp: s2_def s1 less_imp_le)
  have cx: "contents s2 x = contents s x" and cy: "contents s2 y = contents s y"
    using wx wy by (simp_all add: contents_def s2_def s1 wf_buffer_def nth_append)
  let ?xs = "contents s x" and ?ys = "contents s y"
  have lenx: "int (length ?xs) = prod_list sx" and leny: "int (length ?ys) = prod_list sy"
    using wx wy px py prod_list_pos_int [of "shape x"] prod_list_pos_int [of "shape y"]
    by (simp_all add: contents_wf wf_buffer_def sx_def sy_def prod_list_pad_ones)
  have pf: "prod_list (map (\<lambda>(d, c). if fst c then d else 1) (rev ?raw)) = prod_list sx"
           "prod_list (map (\<lambda>(d, c). if snd c then d else 1) (rev ?raw)) = prod_list sy"
    using prod_flagged [OF px py bc] by (simp_all add: rev_map [symmetric] prod_list_rev_int)
  have rp: "\<forall>(d, c) \<in> set (rev ?raw). 0 < d"
    using rok by (auto simp: raw_ok_def)
  have body: "binop_thread F (ksrc prg) ?xs ?ys dimlist (tl (cumprod_back dimlist)) g
              = Some (g, expr2 F code (?xs ! nat (digit_idx fst (rev ?raw) g))
                                       (?ys ! nat (digit_idx snd (rev ?raw) g)))" for g
  proof -
    have ix: "binop_idx (map fst complist) dimlist (tl (cumprod_back dimlist)) g = digit_idx fst (rev ?raw) g"
      using inv(1,2) by (simp add: binop_idx_digit inv(4))
    have iy: "binop_idx (map snd complist) dimlist (tl (cumprod_back dimlist)) g = digit_idx snd (rev ?raw) g"
      using inv(1,2) by (simp add: binop_idx_digit inv(4))
    have bx: "0 \<le> digit_idx fst (rev ?raw) g" "digit_idx fst (rev ?raw) g < int (length ?xs)"
      using digit_idx_bounds [OF rp, of fst g] by (simp_all add: pf lenx)
    have by': "0 \<le> digit_idx snd (rev ?raw) g" "digit_idx snd (rev ?raw) g < int (length ?ys)"
      using digit_idx_bounds [OF rp, of snd g] by (simp_all add: pf leny)
    show ?thesis
      using bx by' by (simp add: binop_thread_def prg ix iy rd_def)
  qed
  define s3 where "s3 = s2\<lparr>mem := (mem s2)[length (mem s) := binop_data F code sx sy ?xs ?ys],
                            launches := launches s2 @ [prg]\<rparr>"
  have la: "launch prg (length (mem s))
              (map (binop_thread F (ksrc prg) ?xs ?ys dimlist (tl (cumprod_back dimlist))) (gids ?N)) s2
            = (Inr (), s3)"
    unfolding s3_def binop_data_def
    using N by (intro launch_ident) (simp_all add: s2_def s1 body)
  have "binary_op F thr code x y s = (Inr ?r, s3)"
    unfolding binary_op_def Let_def n_def [symmetric] pad_ones_def [symmetric]
      sx_def [symmetric] sy_def [symmetric] broadcastable_def [symmetric]
    apply (simp only: bc fold fst_conv snd_conv gp)
    apply (simp only: gs prod.case)
    apply (subst bn)
    apply (simp only: prod.case sum.case cx cy la)
    apply (simp only: buffer.simps)
    apply (simp only: la prod.case sum.case)
    apply simp
    done
  moreover have "mem s3 = mem s @ [binop_data F code sx sy ?xs ?ys]"
    by (simp add: s3_def s2_def s1)
  moreover have "launches s3 = launches s @ [prg]" "fresh s3 = fresh s" "uploads s3 = uploads s"
    by (simp_all add: s3_def s2_def s1)
  moreover have "cache_ok s3" using co1 by (simp add: cache_ok_def s3_def s2_def)
  ultimately show ?thesis using prg pa by auto
qed

lemma binop_data_nth:
  assumes "0 \<le> g" "g < prod_list (map2 max sx sy)"
  shows "binop_data F code sx sy xs ys ! nat g =
         expr2 F code (xs ! nat (digit_idx fst (rev (raw_dims sx sy)) g))
                      (ys ! nat (digit_idx snd (rev (raw_dims sx sy)) g))"
  using assms by (simp add: binop_data_def length_gids gids_nth)

lemma binary_op_mismatch:
  assumes "\<not> broadcastable (pad_ones (max (length (shape x)) (length (shape y))) (shape x))
                            (pad_ones (max (length (shape x)) (length (shape y))) (shape y))"
  shows "binary_op F thr code x y s
           = (Inl (Exception ''binary op unbroadcastable shape mismatch''), s)"
  using assms
  unfolding binary_op_def Let_def pad_ones_def [symmetric] broadcastable_def [symmetric]
  by (simp only: simp_thms if_True)

subsection \<open>Claim C1\<close>

text \<open>
  Claim C1, as amended. \<open>binary_op\<close> aligns the two shapes at the left and pads the
  shorter one with trailing 1s. If some pair of dimensions fails
  \<open>dx = 1 \<or> dy = 1 \<or> dx = dy\<close> it raises the exception and changes nothing.
  Otherwise it returns a buffer whose shape is the elementwise maximum of the padded
  shapes and whose element at every position \<open>ms\<close> is the code applied to the element
  of \<open>x\<close> and the element of \<open>y\<close> at \<open>ms\<close>, with 0 in place of the index along
  each dimension of size 1 (broadcasting).
\<close>

theorem binary_op_broadcast:
  fixes x y :: buffer
  defines "n \<equiv> max (length (shape x)) (length (shape y))"
  defines "sx \<equiv> pad_ones n (shape x)" and "sy \<equiv> pad_ones n (shape y)"
  assumes wx: "wf_buffer s x" and wy: "wf_buffer s y" and co: "cache_ok s"
  shows "(\<not> broadcastable sx sy \<longrightarrow>
            binary_op F thr code x y s
              = (Inl (Exception ''binary op unbroadcastable shape mismatch''), s)) \<and>
         (broadcastable sx sy \<longrightarrow>
            (\<exists>ret s'. binary_op F thr code x y s = (Inr ret, s') \<and>
               shape ret = map2 max sx sy \<and> wf_buffer s' ret \<and>
               (\<forall>ms. in_shape (shape ret) ms \<longrightarrow>
                  contents s' ret ! nat (flat_index (shape ret) ms)
                    = expr2 F code (contents s x ! nat (flat_index sx (broadcast_from sx ms)))
                                   (contents s y ! nat (flat_index sy (broadcast_from sy ms))))))"
proof (intro conjI impI)
  assume "\<not> broadcastable sx sy"
  then show "binary_op F thr code x y s
              = (Inl (Exception ''binary op unbroadcastable shape mismatch''), s)"
    unfolding sx_def sy_def n_def by (rule binary_op_mismatch)
next
  assume bc: "broadcastable sx sy"
  let ?ret = "\<lparr>shape = map2 max sx sy, cl = length (mem s)\<rparr>"
  let ?xs = "contents s x" and ?ys = "contents s y"
  obtain prg s' where r: "binary_op F thr code x y s = (Inr ?ret, s')"
    and m: "mem s' = mem s @ [binop_data F code sx sy ?xs ?ys]"
    using binary_op_ok [OF wx wy co, where F = F and code = code and thr = thr] bc
    unfolding n_def [symmetric] sx_def [symmetric] sy_def [symmetric] by blast
  have lx: "length sx = n" and ly: "length sy = n"
    by (simp_all add: sx_def sy_def n_def length_pad_ones)
  have px: "\<forall>d \<in> set sx. 0 < d" and py: "\<forall>d \<in> set sy. 0 < d"
    using wx wy set_pad_ones [of "shape x" n] set_pad_ones [of "shape y" n]
    by (simp_all add: sx_def sy_def wf_buffer_def)
  have pret: "\<forall>d \<in> set (map2 max sx sy). 0 < d"
    using px py by (auto dest!: set_zip_leftD)
  have N: "0 < prod_list (map2 max sx sy)" using pret by (rule prod_list_pos_int)
  have c: "contents s' ?ret = binop_data F code sx sy ?xs ?ys"
    by (simp add: contents_def m)
  have wf: "wf_buffer s' ?ret"
    using pret N by (simp add: wf_buffer_def m binop_data_def length_gids)
  have vals: "contents s' ?ret ! nat (flat_index (shape ?ret) ms)
                = expr2 F code (?xs ! nat (flat_index sx (broadcast_from sx ms)))
                               (?ys ! nat (flat_index sy (broadcast_from sy ms)))"
    if ins: "in_shape (shape ?ret) ms" for ms
  proof -
    have ins': "in_shape (map2 max sx sy) ms" using ins by simp
    have lm: "length sy = length ms"
      using ins' lx ly by (auto simp: in_shape_def dest: list_all2_lengthD)
    have lxy: "length sx = length sy" using lx ly by simp
    note df = digit_flat [OF lxy lm px py bc ins']
    show ?thesis
      using flat_index_in_range [OF ins'] by (simp add: c binop_data_nth df)
  qed
  show "\<exists>ret s'. binary_op F thr code x y s = (Inr ret, s') \<and>
               shape ret = map2 max sx sy \<and> wf_buffer s' ret \<and>
               (\<forall>ms. in_shape (shape ret) ms \<longrightarrow>
                  contents s' ret ! nat (flat_index (shape ret) ms)
                    = expr2 F code (contents s x ! nat (flat_index sx (broadcast_from sx ms)))
                                   (contents s y ! nat (flat_index sy (broadcast_from sy ms))))"
    using r wf vals by (intro exI [of _ ?ret] exI [of _ s']) simp
qed

theorem binary_op_broadcast_witness:
  "wf_buffer (int_device [[1, 2, 3, 4, 5, 6], [10, 20]]) \<lparr>shape = [2, 3], cl = 0\<rparr> \<and>
   wf_buffer (int_device [[1, 2, 3, 4, 5, 6], [10, 20]]) \<lparr>shape = [2], cl = 1\<rparr> \<and>
   cache_ok (int_device [[1, 2, 3, 4, 5, 6], [10, 20]]) \<and>
   broadcastable (pad_ones 2 [2, 3]) (pad_ones 2 [2]) \<and>
   in_shape [2, 3] [1, 2] \<and>
   (\<exists>ret s'. binary_op int_sem 0 ''a+b'' \<lparr>shape = [2, 3], cl = 0\<rparr> \<lparr>shape = [2], cl = 1\<rparr>
                 (int_device [[1, 2, 3, 4, 5, 6], [10, 20]]) = (Inr ret, s') \<and>
              shape ret = [2, 3] \<and> contents s' ret ! nat (flat_index [2, 3] [1, 2]) = 26)"
proof -
  let ?s = "int_device [[1, 2, 3, 4, 5, 6], [10, 20]]"
  let ?x = "\<lparr>shape = [2, 3], cl = 0\<rparr>" and ?y = "\<lparr>shape = [2], cl = 1\<rparr>"
  have wx: "wf_buffer ?s ?x" and wy: "wf_buffer ?s ?y" and co: "cache_ok ?s"
    by (simp_all add: wf_buffer_def cache_ok_def int_device_def device0_def)
  have bc: "broadcastable (pad_ones 2 [2, 3]) (pad_ones 2 [2])"
    by (simp add: broadcastable_def pad_ones_def)
  have ins: "in_shape [2, 3] [1, 2]" by (simp add: in_shape_def)
  have cx: "contents ?s ?x = [1, 2, 3, 4, 5, 6]" and cy: "contents ?s ?y = [10, 20]"
    by (simp_all add: contents_def int_device_def device0_def)
  have e: "expr2 int_sem ''a+b'' a b = a + b" for a b by (simp add: int_sem_def)
  have ix: "nat (flat_index [2, 3] (broadcast_from [2, 3] [1, 2])) = 5"
       "nat (flat_index [2, 1] (broadcast_from [2, 1] [1, 2])) = 1"
    by (simp_all add: flat_index_def broadcast_from_def)
  have pd: "pad_ones 2 [2, 3] = [2, 3]" "pad_ones 2 [2] = [2, 1]"
    "pad_ones (Suc (Suc 0)) [2, 3] = [2, 3]" "pad_ones (Suc (Suc 0)) [2] = [2, 1]"
    by (simp_all add: pad_ones_def)
  have bc': "broadcastable [2, 3] [2, 1]" using bc by (simp only: pd)
  have "\<exists>ret s'. binary_op int_sem 0 ''a+b'' ?x ?y ?s = (Inr ret, s') \<and>
           shape ret = [2, 3] \<and> wf_buffer s' ret \<and>
           (\<forall>ms. in_shape (shape ret) ms \<longrightarrow>
              contents s' ret ! nat (flat_index (shape ret) ms)
                = expr2 int_sem ''a+b'' (contents ?s ?x ! nat (flat_index [2, 3] (broadcast_from [2, 3] ms)))
                                        (contents ?s ?y ! nat (flat_index [2, 1] (broadcast_from [2, 1] ms))))"
    using binary_op_broadcast [OF wx wy co, where F = int_sem and code = "''a+b''" and thr = 0] bc'
    by (simp add: pd)
  then obtain ret s' where r: "binary_op int_sem 0 ''a+b'' ?x ?y ?s = (Inr ret, s')"
    and sh: "shape ret = [2, 3]"
    and v: "\<forall>ms. in_shape (shape ret) ms \<longrightarrow>
              contents s' ret ! nat (flat_index (shape ret) ms)
                = expr2 int_sem ''a+b'' (contents ?s ?x ! nat (flat_index [2, 3] (broadcast_from [2, 3] ms)))
                                        (contents ?s ?y ! nat (flat_index [2, 1] (broadcast_from [2, 1] ms)))"
    by (elim exE conjE)
  have "contents s' ret ! nat (flat_index [2, 3] [1, 2]) = 26"
    using v [rule_format, of "[1, 2]"] ins by (simp only: sh ix cx cy e) simp
  then show ?thesis using wx wy co bc ins r sh by blast
qed

text \<open>
  Claim C1, as stated, fails: the shapes \<open>(2,3)\<close> and \<open>(3)\<close> are compatible when
  aligned at the right (\<open>(2,3)\<close> and \<open>(1,3)\<close>), yet \<open>binary_op\<close> raises, because it
  compares \<open>(2,3)\<close> with \<open>(3,1)\<close>.
\<close>

theorem binary_op_not_right_aligned:
  "broadcastable (pad_ones_left 2 [2, 3]) (pad_ones_left 2 [3]) \<and>
   binary_op int_sem 0 ''a+b'' \<lparr>shape = [2, 3], cl = 0\<rparr> \<lparr>shape = [3], cl = 1\<rparr>
       (int_device [[1, 2, 3, 4, 5, 6], [10, 20, 30]])
     = (Inl (Exception ''binary op unbroadcastable shape mismatch''),
        int_device [[1, 2, 3, 4, 5, 6], [10, 20, 30]])"
proof -
  have "\<not> broadcastable (pad_ones (Suc (Suc 0)) [2, 3]) (pad_ones (Suc (Suc 0)) [3])"
    by (simp add: broadcastable_def pad_ones_def)
  then have "binary_op int_sem 0 ''a+b'' \<lparr>shape = [2, 3], cl = 0\<rparr> \<lparr>shape = [3], cl = 1\<rparr>
       (int_device [[1, 2, 3, 4, 5, 6], [10, 20, 30]])
     = (Inl (Exception ''binary op unbroadcastable shape mismatch''),
        int_device [[1, 2, 3, 4, 5, 6], [10, 20, 30]])"
    by (intro binary_op_mismatch) simp
  moreover have "broadcastable (pad_ones_left 2 [2, 3]) (pad_ones_left 2 [3])"
    by (simp add: broadcastable_def pad_ones_left_def)
  ultimately show ?thesis by simp
qed

lemma on_ok_simps [simp]:
  "on_ok (Inr r, s) f = f r s"
  "on_ok (Inl e, s) f = (Inl e, s)"
  by (simp_all add: on_ok_def)

lemma on_val_simps [simp]:
  "on_val (Inr r) s f = f r"
  "on_val (Inl e) s f = (Inl e, s)"
  by (simp_all add: on_val_def)

lemma reduce_idx_bounds:
  assumes "\<forall>(sx, sr) \<in> set dims. 0 < sx" "0 \<le> idx"
  shows "0 \<le> reduce_idx gid x dims idx tprod tsz \<and>
         reduce_idx gid x dims idx tprod tsz < (idx + 1) * prod_list (map fst dims)"
  using assms
proof (induction dims arbitrary: idx tprod tsz)
  case Nil
  then show ?case by simp
next
  case (Cons a dims)
  obtain sx sr where a: "a = (sx, sr)" by (cases a)
  have sx: "0 < sx" using Cons.prems a by simp
  have step: "0 \<le> idx * sx + d \<and> (idx * sx + d + 1) * P \<le> (idx + 1) * (sx * P)"
    if "0 \<le> d" "d < sx" "0 \<le> P" for d P
  proof -
    have "(idx * sx + d + 1) \<le> (idx + 1) * sx" using that by (simp add: algebra_simps)
    then have "(idx * sx + d + 1) * P \<le> ((idx + 1) * sx) * P"
      using that(3) by (rule mult_right_mono)
    then show ?thesis using Cons.prems(2) that sx by (simp add: mult.assoc)
  qed
  let ?P = "prod_list (map fst dims)"
  have P: "0 \<le> ?P" using Cons.prems(1) by (intro prod_list_nonneg) auto
  have rest: "\<forall>(sx, sr) \<in> set dims. 0 < sx" using Cons.prems(1) by simp
  show ?case
  proof (cases "sx = sr")
    case True
    let ?d = "(gid div (tprod div sx)) mod sx"
    have d: "0 \<le> ?d" "?d < sx" using sx by simp_all
    note s = step [OF d P]
    have "0 \<le> reduce_idx gid x dims (idx * sx + ?d) (tprod div sx) tsz \<and>
          reduce_idx gid x dims (idx * sx + ?d) (tprod div sx) tsz < (idx * sx + ?d + 1) * ?P"
      using s by (intro Cons.IH rest) simp
    then show ?thesis using s True by (simp add: a)
  next
    case False
    let ?d = "(x div (tsz div sx)) mod sx"
    have d: "0 \<le> ?d" "?d < sx" using sx by simp_all
    note s = step [OF d P]
    have "0 \<le> reduce_idx gid x dims (idx * sx + ?d) tprod (tsz div sx) \<and>
          reduce_idx gid x dims (idx * sx + ?d) tprod (tsz div sx) < (idx * sx + ?d + 1) * ?P"
      using s by (intro Cons.IH rest) simp
    then show ?thesis using s False by (simp add: a)
  qed
qed

lemma reduce_loop_ok:
  assumes "\<forall>(sx, sr) \<in> set dims. 0 < sx" "int (length a_g) = prod_list (map fst dims)"
  shows "reduce_loop F code a_g gid dims prd sz xs out
         = Some (reduce_val F code a_g gid dims prd sz xs out)"
proof (induction xs arbitrary: out)
  case Nil
  then show ?case by (simp add: reduce_val_def)
next
  case (Cons x xs)
  have "0 \<le> reduce_idx gid x dims 0 prd sz \<and> reduce_idx gid x dims 0 prd sz < int (length a_g)"
    using reduce_idx_bounds [OF assms(1), of 0 gid x prd sz] assms(2) by simp
  then show ?case using Cons by (simp add: rd_def reduce_val_def)
qed

lemma set_ones_ok:
  assumes "\<forall>a \<in> set ax. - int (length shp) \<le> a \<and> a < int (length shp)"
  shows "\<exists>osize. set_ones shp ax = Inr osize \<and> length osize = length shp \<and>
                 (\<forall>i < length shp. osize ! i = shp ! i \<or> osize ! i = 1)"
  using assms
proof (induction ax arbitrary: shp)
  case Nil
  then show ?case by simp
next
  case (Cons a ax)
  define i where "i = nat (if a < 0 then a + int (length shp) else a)"
  have i: "py_index (length shp) a = Inr i" "i < length shp"
    using Cons.prems by (auto simp: py_index_def i_def)
  have "\<exists>osize. set_ones (shp[i := 1]) ax = Inr osize \<and> length osize = length (shp[i := 1]) \<and>
                 (\<forall>k < length (shp[i := 1]). osize ! k = shp[i := 1] ! k \<or> osize ! k = 1)"
    using Cons.prems by (intro Cons.IH) simp
  then show ?case using i by (auto simp: nth_list_update split: if_splits)
qed

lemma cache_ok_mem_upd [simp]:
  "cache_ok (s\<lparr>mem := m\<rparr>) = cache_ok s"
  "cache_ok (s\<lparr>launches := l\<rparr>) = cache_ok s"
  "cache_ok (s\<lparr>uploads := u\<rparr>) = cache_ok s"
  by (simp_all add: cache_ok_def)

lemma reduce_op_ok:
  assumes wf: "wf_buffer s inp" and co: "cache_ok s"
    and os: "osize_of (shape inp) axis = Inr osize"
    and len: "length osize = length (shape inp)" and pos: "\<forall>d \<in> set osize. 0 < d"
  shows "\<exists>k s'. reduce_op F thr code code2 inp axis start s
            = (Inr \<lparr>shape = (if axis = None then [1] else osize), cl = length (mem s)\<rparr>, s') \<and>
          mem s' = mem s @ [reduce_data F start code code2 (contents s inp) (shape inp) osize] \<and>
          launches s' = launches s @ [k] \<and> ksrc k = ReduceSrc start code code2 \<and>
          fresh s' = fresh s \<and> cache_ok s'"
proof -
  let ?N = "prod_list osize"
  have N: "0 < ?N" using pos by (rule prod_list_pos_int)
  define s1 where "s1 = s\<lparr>mem := mem s @ [map (fresh s) [0..<nat ?N]]\<rparr>"
  let ?raw_ret = "\<lparr>shape = osize, cl = length (mem s)\<rparr>"
  let ?ret = "\<lparr>shape = (if axis = None then [1] else osize), cl = length (mem s)\<rparr>"
  have bn: "buffer_new F osize False s = (Inr ?raw_ret, s1)"
    using pos by (subst buffer_new_ok) (auto simp: s1_def less_imp_le)
  obtain k s2 where cb: "clbuild thr (ReduceSrc start code code2) ''reduce'' s1 = (k, s2)"
    by (cases "clbuild thr (ReduceSrc start code code2) ''reduce'' s1")
  have co1: "cache_ok s1" using co by (simp add: s1_def)
  have s2: "mem s2 = mem s1" "fresh s2 = fresh s1" "uploads s2 = uploads s1" "launches s2 = launches s1"
    using clbuild_fields [of thr "ReduceSrc start code code2" "''reduce''" s1] cb by simp_all
  have k: "ksrc k = ReduceSrc start code code2" and co2: "cache_ok s2"
    using clbuild_ksrc [OF co1, of thr "ReduceSrc start code code2" "''reduce''"]
      clbuild_cache_ok [OF co1, of thr "ReduceSrc start code code2" "''reduce''"] cb by simp_all
  define s4 where "s4 = s2\<lparr>uploads := uploads s2 @ [shape inp] @ [osize]\<rparr>"
  have np: "buffer_np (shape inp) s2 = (shape inp, s2\<lparr>uploads := uploads s2 @ [shape inp]\<rparr>)"
    "buffer_np osize (s2\<lparr>uploads := uploads s2 @ [shape inp]\<rparr>) = (osize, s4)"
    by (simp_all add: buffer_np_def s4_def)
  have m4: "mem s4 = mem s @ [map (fresh s) [0..<nat ?N]]"
    by (simp add: s4_def s2 s1_def)
  have c4: "contents s4 inp = contents s inp"
    using wf by (simp add: contents_def m4 wf_buffer_def nth_append)
  let ?a = "contents s inp"
  let ?sz = "prod_list (shape inp) div ?N"
  have dims: "\<forall>(sx, sr) \<in> set (zip (shape inp) osize). 0 < sx"
    using wf by (auto simp: wf_buffer_def dest: set_zip_leftD)
  have la: "int (length ?a) = prod_list (map fst (zip (shape inp) osize))"
    using wf len prod_list_pos_int [of "shape inp"]
    by (simp add: contents_wf wf_buffer_def)
  have body: "reduce_thread F (ksrc k) ?a ?sz ?N (shape inp) osize gid
              = Some (gid, expr1 F code2
                  (reduce_val F code ?a gid (zip (shape inp) osize) ?N ?sz (gids ?sz) (lit F start)))" for gid
    by (simp add: reduce_thread_def k reduce_loop_ok [OF dims la])
  define s5 where "s5 = s4\<lparr>mem := (mem s4)[length (mem s) := reduce_data F start code code2 ?a (shape inp) osize],
                            launches := launches s4 @ [k]\<rparr>"
  have lau: "launch k (length (mem s))
              (map (reduce_thread F (ksrc k) ?a ?sz ?N (shape inp) osize) (gids ?N)) s4
            = (Inr (), s5)"
    unfolding s5_def reduce_data_def
    using N by (intro launch_ident) (simp_all add: m4 body)
  have "reduce_op F thr code code2 inp axis start s = (Inr ?ret, s5)"
    unfolding reduce_op_def osize_of_def [symmetric] os sum.case bn on_ok_simps Let_def
    apply (simp only: cb prod.case np c4)
    apply (cases "axis = None")
     apply (auto simp: lau)
    done
  moreover have "mem s5 = mem s @ [reduce_data F start code code2 ?a (shape inp) osize]"
    by (simp add: s5_def m4)
  moreover have "launches s5 = launches s @ [k]" "fresh s5 = fresh s"
    by (simp_all add: s5_def s4_def s2 s1_def)
  moreover have "cache_ok s5" using co2 by (simp add: s5_def s4_def)
  ultimately show ?thesis using k by blast
qed

lemma set_ones_eq:
  assumes "\<forall>a \<in> set ax. 0 \<le> a \<and> a < int (length shp)"
  shows "set_ones shp ax = Inr (axes_set_to_one shp ax)"
  using assms
proof (induction ax arbitrary: shp)
  case Nil
  then show ?case by (simp add: axes_set_to_one_def map_nth)
next
  case (Cons a ax)
  have i: "py_index (length shp) a = Inr (nat a)" "nat a < length shp"
    using Cons.prems by (auto simp: py_index_def)
  have "set_ones (shp[nat a := 1]) ax = Inr (axes_set_to_one (shp[nat a := 1]) ax)"
    using Cons.prems by (intro Cons.IH) simp
  moreover have "axes_set_to_one (shp[nat a := 1]) ax = axes_set_to_one shp (a # ax)"
    using Cons.prems by (auto simp: axes_set_to_one_def nth_list_update)
  ultimately show ?case using i by simp
qed

lemma drop_axes_nths: "drop_axes shp ax = axes_removed shp ax"
proof -
  have "zip shp [0..<length shp] = map (\<lambda>i. (shp ! i, i)) [0..<length shp]"
    by (intro nth_equalityI) simp_all
  then show ?thesis
    by (simp add: drop_axes_def axes_removed_def nths_def filter_map comp_def)
qed

lemma prod_list_filter_ones:
  "prod_list (map f (filter P xs)) = prod_list (map (\<lambda>i. if P i then f i else (1::int)) xs)"
  by (induction xs) simp_all

lemma prod_drop_axes: "prod_list (drop_axes shp ax) = prod_list (axes_set_to_one shp ax)"
proof -
  have "(\<lambda>i. if int i \<notin> set ax then shp ! i else 1) = (\<lambda>i. if int i \<in> set ax then 1 else shp ! i)"
    by auto
  then show ?thesis
    by (simp add: drop_axes_def axes_set_to_one_def prod_list_filter_ones)
qed

lemma axes_set_to_one_pos:
  "\<forall>d \<in> set shp. 0 < d \<Longrightarrow> \<forall>d \<in> set (axes_set_to_one shp ax). 0 < d"
  by (auto simp: axes_set_to_one_def)

lemma drop_axes_pos:
  "\<forall>d \<in> set shp. 0 < d \<Longrightarrow> \<forall>d \<in> set (drop_axes shp ax). 0 < d"
  by (auto simp: drop_axes_def)

lemma length_reduce_data:
  "length (reduce_data F start code code2 a shp osize) = nat (prod_list osize)"
  by (simp add: reduce_data_def length_gids)

lemma reduce_op_shape:
  assumes wf: "wf_buffer s inp" and co: "cache_ok s"
    and ax: "case axis of None \<Rightarrow> True
             | Some ax \<Rightarrow> \<forall>a \<in> set ax. 0 \<le> a \<and> a < int (length (shape inp))"
  shows "\<exists>ret s'. reduce_op F thr code code2 inp axis start s = (Inr ret, s') \<and>
           shape ret = (case axis of None \<Rightarrow> [1] | Some ax \<Rightarrow> axes_set_to_one (shape inp) ax) \<and>
           cl ret = length (mem s) \<and> cl ret < length (mem s') \<and>
           length (mem s' ! cl ret) = nat (prod_list (shape ret))"
proof -
  define osize where "osize = (case axis of None \<Rightarrow> replicate (length (shape inp)) 1
                                           | Some ax \<Rightarrow> axes_set_to_one (shape inp) ax)"
  have os: "osize_of (shape inp) axis = Inr osize"
    using ax by (auto simp: osize_of_def osize_def set_ones_eq split: option.splits)
  have len: "length osize = length (shape inp)"
    by (simp add: osize_def axes_set_to_one_def split: option.splits)
  have pos: "\<forall>d \<in> set osize. 0 < d"
    using wf axes_set_to_one_pos [of "shape inp"]
    by (auto simp: osize_def wf_buffer_def split: option.splits)
  obtain k s' where r: "reduce_op F thr code code2 inp axis start s
            = (Inr \<lparr>shape = (if axis = None then [1] else osize), cl = length (mem s)\<rparr>, s')"
    and m: "mem s' = mem s @ [reduce_data F start code code2 (contents s inp) (shape inp) osize]"
    using reduce_op_ok [OF wf co os len pos, of F thr code code2 start] by (elim exE conjE)
  let ?ret = "\<lparr>shape = (if axis = None then [1] else osize), cl = length (mem s)\<rparr>"
  have p: "prod_list osize = prod_list (shape ?ret)"
    by (simp add: osize_def)
  have sh: "shape ?ret = (case axis of None \<Rightarrow> [1] | Some ax \<Rightarrow> axes_set_to_one (shape inp) ax)"
    by (simp add: osize_def split: option.splits)
  have "length (mem s' ! cl ?ret) = nat (prod_list (shape ?ret))"
    unfolding p [symmetric] by (simp add: m length_reduce_data)
  moreover have "cl ?ret < length (mem s')" by (simp add: m)
  ultimately show ?thesis
    using r sh by (intro exI [of _ ?ret] exI [of _ s']) simp
qed

lemma Sum_forward_shape:
  assumes wf: "wf_buffer s inp" and co: "cache_ok s"
    and ax: "case norm_axis axis of None \<Rightarrow> True
             | Some ax \<Rightarrow> \<forall>a \<in> set ax. 0 \<le> a \<and> a < int (length (shape inp))"
  shows "\<exists>ret s'. Sum_forward F thr inp axis s = (Inr ret, s') \<and> wf_buffer s' ret \<and>
           cl ret = length (mem s) \<and>
           shape ret = (case norm_axis axis of None \<Rightarrow> [1]
                        | Some ax \<Rightarrow> axes_removed (shape inp) ax)"
proof -
  obtain ret s' where r: "reduce_op F thr ''out += a'' ''out'' inp (norm_axis axis) ''0.0'' s = (Inr ret, s')"
    and sh: "shape ret = (case norm_axis axis of None \<Rightarrow> [1]
                          | Some ax \<Rightarrow> axes_set_to_one (shape inp) ax)"
    and c: "cl ret = length (mem s)" "cl ret < length (mem s')"
    and l: "length (mem s' ! cl ret) = nat (prod_list (shape ret))"
    using reduce_op_shape [OF wf co ax, of F thr "''out += a''" "''out''" "''0.0''"]
    by (elim exE conjE)
  have pos: "\<forall>d \<in> set (shape inp). 0 < d" using wf by (simp add: wf_buffer_def)
  show ?thesis
  proof (cases "norm_axis axis")
    case None
    then show ?thesis using r sh c l by (simp add: Sum_forward_def wf_buffer_def)
  next
    case (Some ax)
    then show ?thesis
      using r sh c l drop_axes_pos [OF pos, of ax]
      by (simp add: Sum_forward_def wf_buffer_def prod_drop_axes drop_axes_nths [symmetric])
  qed
qed

lemma Max_forward_shape:
  assumes wf: "wf_buffer s inp" and co: "cache_ok s"
    and ax: "case norm_axis axis of None \<Rightarrow> True
             | Some ax \<Rightarrow> \<forall>a \<in> set ax. 0 \<le> a \<and> a < int (length (shape inp))"
  shows "\<exists>ret saved s'. Max_forward F thr inp axis s = (Inr (ret, saved), s') \<and> wf_buffer s' ret \<and>
           cl ret = length (mem s) \<and>
           shape ret = (case norm_axis axis of None \<Rightarrow> [1]
                        | Some ax \<Rightarrow> axes_removed (shape inp) ax)"
proof -
  obtain ret s' where r: "reduce_op F thr ''out = max(a,out)'' ''out'' inp (norm_axis axis) ''-INFINITY'' s = (Inr ret, s')"
    and sh: "shape ret = (case norm_axis axis of None \<Rightarrow> [1]
                          | Some ax \<Rightarrow> axes_set_to_one (shape inp) ax)"
    and c: "cl ret = length (mem s)" "cl ret < length (mem s')"
    and l: "length (mem s' ! cl ret) = nat (prod_list (shape ret))"
    using reduce_op_shape [OF wf co ax, of F thr "''out = max(a,out)''" "''out''" "''-INFINITY''"]
    by (elim exE conjE)
  have pos: "\<forall>d \<in> set (shape inp). 0 < d" using wf by (simp add: wf_buffer_def)
  show ?thesis
  proof (cases "norm_axis axis")
    case None
    then show ?thesis using r sh c l by (simp add: Max_forward_def wf_buffer_def)
  next
    case (Some ax)
    then show ?thesis
      using r sh c l drop_axes_pos [OF pos, of ax]
      by (simp add: Max_forward_def wf_buffer_def prod_drop_axes drop_axes_nths [symmetric] Let_def)
  qed
qed

subsection \<open>Claim C2\<close>

text \<open>
  Claim C2, as amended. For every well-formed input buffer and every axis argument
  naming axes of the input by their non-negative positions, \<open>reduce_op\<close> returns a
  buffer whose shape is the input shape with each reduced axis set to 1, and
  \<open>Sum.forward\<close> and \<open>Max.forward\<close> return that buffer with the reduced axes removed from
  its shape; when the axis is unset the shape is \<open>(1,)\<close>.
\<close>

theorem reductions_shape:
  assumes wf: "wf_buffer s inp" and co: "cache_ok s"
    and ax: "case norm_axis axis of None \<Rightarrow> True
             | Some ax \<Rightarrow> \<forall>a \<in> set ax. 0 \<le> a \<and> a < int (length (shape inp))"
  shows "(\<exists>ret s'. reduce_op F thr code code2 inp (norm_axis axis) start s = (Inr ret, s') \<and>
            shape ret = (case norm_axis axis of None \<Rightarrow> [1]
                         | Some ax \<Rightarrow> axes_set_to_one (shape inp) ax)) \<and>
         (\<exists>ret s'. Sum_forward F thr inp axis s = (Inr ret, s') \<and> wf_buffer s' ret \<and>
            shape ret = (case norm_axis axis of None \<Rightarrow> [1]
                         | Some ax \<Rightarrow> axes_removed (shape inp) ax)) \<and>
         (\<exists>ret saved s'. Max_forward F thr inp axis s = (Inr (ret, saved), s') \<and> wf_buffer s' ret \<and>
            shape ret = (case norm_axis axis of None \<Rightarrow> [1]
                         | Some ax \<Rightarrow> axes_removed (shape inp) ax))"
  using reduce_op_shape [OF wf co ax, of F thr code code2 start]
    Sum_forward_shape [OF wf co ax, of F thr] Max_forward_shape [OF wf co ax, of F thr]
  by blast

theorem reductions_shape_witness:
  "wf_buffer (int_device [[1, 2, 3, 4, 5, 6]]) \<lparr>shape = [2, 3], cl = 0\<rparr> \<and>
   cache_ok (int_device [[1, 2, 3, 4, 5, 6]]) \<and>
   norm_axis (AxisInt 1) = Some [1] \<and> axes_removed [2, 3] [1] = [2] \<and>
   (\<exists>ret s'. Sum_forward int_sem 0 \<lparr>shape = [2, 3], cl = 0\<rparr> (AxisInt 1)
                (int_device [[1, 2, 3, 4, 5, 6]]) = (Inr ret, s') \<and> shape ret = [2])"
proof -
  let ?s = "int_device [[1, 2, 3, 4, 5, 6]]"
  let ?x = "\<lparr>shape = [2, 3], cl = 0\<rparr>"
  have wf: "wf_buffer ?s ?x" and co: "cache_ok ?s"
    by (simp_all add: wf_buffer_def cache_ok_def int_device_def device0_def)
  have na: "norm_axis (AxisInt 1) = Some [1]" by (simp add: norm_axis_def)
  have ax: "case norm_axis (AxisInt 1) of None \<Rightarrow> True
            | Some ax \<Rightarrow> \<forall>a \<in> set ax. 0 \<le> a \<and> a < int (length (shape ?x))"
    by (simp add: na)
  have rm: "axes_removed [2, 3] [1] = [2]"
    by (simp add: drop_axes_nths [symmetric] drop_axes_def)
  show ?thesis
    using reductions_shape [OF wf co ax, of int_sem 0] wf co na rm by simp blast
qed

text \<open>
  Claim C2, as stated, fails: summing a buffer of shape \<open>(2,3)\<close> along axis 0 returns a
  buffer of shape \<open>(3,)\<close>, not \<open>(1,3)\<close>.
\<close>

theorem Sum_forward_drops_axis:
  "map_sum id shape (fst (Sum_forward int_sem 0 \<lparr>shape = [2, 3], cl = 0\<rparr> (AxisInt 0)
                             (int_device [[1, 2, 3, 4, 5, 6]]))) = Inr [3] \<and>
   axes_set_to_one [2, 3] [0] = [1, 3]"
proof -
  let ?s = "int_device [[1, 2, 3, 4, 5, 6]]"
  let ?x = "\<lparr>shape = [2, 3], cl = 0\<rparr>"
  have wf: "wf_buffer ?s ?x" and co: "cache_ok ?s"
    by (simp_all add: wf_buffer_def cache_ok_def int_device_def device0_def)
  have na: "norm_axis (AxisInt 0) = Some [0]" by (simp add: norm_axis_def)
  have ax: "case norm_axis (AxisInt 0) of None \<Rightarrow> True
            | Some ax \<Rightarrow> \<forall>a \<in> set ax. 0 \<le> a \<and> a < int (length (shape ?x))"
    by (simp add: na)
  have rm: "axes_removed [2, 3] [0] = [3]"
    by (simp add: drop_axes_nths [symmetric] drop_axes_def)
  have "axes_set_to_one [2, 3] [0] = [1, 3]"
    by (simp add: axes_set_to_one_def)
  then show ?thesis
    using Sum_forward_shape [OF wf co ax, of int_sem 0] by (auto simp: na rm)
qed

lemma launch_error: "launch k out ws s = (Inl e, s') \<Longrightarrow> e = DeviceFault"
  by (auto simp: launch_def split: if_splits option.splits)

lemma buffer_new_error: "buffer_new F shp z s = (Inl e, s') \<Longrightarrow> s' = s"
  by (auto simp: buffer_new_def split: if_splits)

lemma buffer_new_cases:
  "buffer_new F shp z s = (Inl e, s') \<Longrightarrow> s' = s \<and> e \<noteq> DeviceFault"
  by (auto simp: buffer_new_def split: if_splits)

lemma on_ok_error:
  assumes "on_ok m f = (Inl e, s')"
  shows "m = (Inl e, s') \<or> (\<exists>r s1. m = (Inr r, s1) \<and> f r s1 = (Inl e, s'))"
  using assms by (auto simp: on_ok_def split: prod.splits sum.splits)

lemma on_val_error:
  assumes "on_val v s f = (Inl e, s')"
  shows "(v = Inl e \<and> s' = s) \<or> (\<exists>r. v = Inr r \<and> f r = (Inl e, s'))"
  using assms by (auto simp: on_val_def split: sum.splits)

lemma get_binop_prg_frame:
  "get_binop_prg thr code cs s = (h, s1) \<Longrightarrow> mem s1 = mem s \<and> launches s1 = launches s"
  using get_binop_prg_fields [of thr code cs s] by simp

lemma clbuild_frame:
  "clbuild thr prg name s = (h, s1) \<Longrightarrow> mem s1 = mem s \<and> launches s1 = launches s"
  using clbuild_fields [of thr prg name s] by simp

lemma binary_op_fails:
  assumes "binary_op F thr code x y s = (Inl e, s')" "e \<noteq> DeviceFault"
  shows "mem s' = mem s \<and> launches s' = launches s"
  using assms
  by (auto simp: binary_op_def Let_def split: if_splits prod.splits sum.splits
           dest!: launch_error buffer_new_error get_binop_prg_frame)

lemma Reshape_forward_fails:
  assumes "Reshape_forward x shp s = (Inl e, s')"
  shows "s' = s"
  using assms by (auto simp: Reshape_forward_def Let_def split: if_splits)

lemma Matmul_forward_fails:
  assumes "Matmul_forward F thr inp w s = (Inl e, s')" "e \<noteq> DeviceFault"
  shows "mem s' = mem s \<and> launches s' = launches s"
  using assms
  by (auto simp: Matmul_forward_def Let_def split: if_splits prod.splits
           dest!: on_val_error on_ok_error launch_error buffer_new_error clbuild_frame)

lemma Conv2D_forward_fails:
  assumes "Conv2D_forward F thr x w stride groups s = (Inl e, s')" "e \<noteq> DeviceFault"
  shows "mem s' = mem s \<and> launches s' = launches s"
  using assms
  by (auto simp: Conv2D_forward_def Let_def split: if_splits prod.splits list.splits
           dest!: on_ok_error launch_error buffer_new_error clbuild_frame)

lemma Conv2D_forward_assert:
  assumes "shape w = [cout, cin, H, W]" "shape x = [bs, cin', iy, ix]"
    and "stride_pair stride = (ys, xs)" "ys \<noteq> 0" "xs \<noteq> 0" "groups \<noteq> 0"
    and "\<not> (cin * groups = cin' \<and> cout mod groups = 0)"
  shows "Conv2D_forward F thr x w stride groups s = (Inl AssertionError, s)"
  using assms by (auto simp: Conv2D_forward_def stride_pair_def Let_def split: stride_arg.splits)

lemma on_ok_ok:
  assumes "on_ok m f = (Inr q, s')"
  shows "\<exists>r s1. m = (Inr r, s1) \<and> f r s1 = (Inr q, s')"
  using assms by (auto simp: on_ok_def split: prod.splits sum.splits)

lemma Conv2D_forward_shape:
  assumes "Conv2D_forward F thr x w stride groups s = (Inr ret, s')"
  shows "\<exists>cout cin H W bs cin' iy ix ys xs.
           shape w = [cout, cin, H, W] \<and> shape x = [bs, cin', iy, ix] \<and>
           stride_pair stride = (ys, xs) \<and> cin * groups = cin' \<and> cout mod groups = 0 \<and>
           shape ret = [bs, cout, (iy - (H - ys)) div ys, (ix - (W - xs)) div xs]"
proof -
  obtain cout cin H W where w: "shape w = [cout, cin, H, W]"
    using assms by (auto simp: Conv2D_forward_def split: list.splits)
  obtain bs cin' iy ix where x: "shape x = [bs, cin', iy, ix]"
    using assms w by (auto simp: Conv2D_forward_def split: list.splits prod.splits)
  obtain ys xs where st: "stride_pair stride = (ys, xs)" by (cases "stride_pair stride")
  then have st': "(case stride of StrideInt k \<Rightarrow> (k, k) | StridePair a b \<Rightarrow> (a, b)) = (ys, xs)"
    by (simp add: stride_pair_def)
  let ?oy = "(iy - (H - ys)) div ys" and ?ox = "(ix - (W - xs)) div xs"
  have chk: "cin * groups = cin'" "cout mod groups = 0"
    and bn: "\<exists>s1. buffer_new F [bs, cout, ?oy, ?ox] False s = (Inr ret, s1)"
    using assms unfolding Conv2D_forward_def w x st' list.case prod.case Let_def
    by (auto split: if_splits prod.splits dest!: on_ok_ok)
  have "shape ret = [bs, cout, ?oy, ?ox]"
    using bn by (auto simp: buffer_new_def split: if_splits)
  then have "shape w = [cout, cin, H, W] \<and> shape x = [bs, cin', iy, ix] \<and>
           stride_pair stride = (ys, xs) \<and> cin * groups = cin' \<and> cout mod groups = 0 \<and>
           shape ret = [bs, cout, (iy - (H - ys)) div ys, (ix - (W - xs)) div xs]"
    using w x st chk by simp
  then show ?thesis
    by (intro exI)
qed

subsection \<open>Claim C5\<close>

text \<open>
  Claim C5. With a weight of shape \<open>(cout, cin, H, W)\<close>, an input of shape
  \<open>(bs, cin', iy, ix)\<close>, non-zero strides \<open>(ys, xs)\<close> and a non-zero number of groups,
  \<open>Conv2D.forward\<close> fails its assertion unless \<open>cin * groups = cin'\<close> and \<open>groups\<close>
  divides \<open>cout\<close>; and whenever it returns a buffer, the shape of that buffer is
  \<open>(bs, cout, (iy - (H - ys)) div ys, (ix - (W - xs)) div xs)\<close>.
\<close>

theorem Conv2D_forward_contract:
  "(shape w = [cout, cin, H, W] \<and> shape x = [bs, cin', iy, ix] \<and>
    stride_pair stride = (ys, xs) \<and> ys \<noteq> 0 \<and> xs \<noteq> 0 \<and> groups \<noteq> 0 \<and>
    \<not> (cin * groups = cin' \<and> cout mod groups = 0)
      \<longrightarrow> Conv2D_forward F thr x w stride groups s = (Inl AssertionError, s)) \<and>
   (Conv2D_forward F thr x w stride groups s = (Inr ret, s')
      \<longrightarrow> (\<exists>cout cin H W bs cin' iy ix ys xs.
             shape w = [cout, cin, H, W] \<and> shape x = [bs, cin', iy, ix] \<and>
             stride_pair stride = (ys, xs) \<and> cin * groups = cin' \<and> cout mod groups = 0 \<and>
             shape ret = [bs, cout, (iy - (H - ys)) div ys, (ix - (W - xs)) div xs]))"
  using Conv2D_forward_assert [of w cout cin H W x bs cin' iy ix stride ys xs groups F thr s]
    Conv2D_forward_shape [of F thr x w stride groups s ret s']
  by blast

lemma conv_example_stride1:
  "fst (Conv2D_forward int_sem 0 \<lparr>shape = [1, 1, 5, 5], cl = 0\<rparr> \<lparr>shape = [1, 1, 3, 3], cl = 1\<rparr>
          (StrideInt 1) 1 (int_device [replicate 25 1, replicate 9 2]))
   = Inr \<lparr>shape = [1, 1, 3, 3], cl = 2\<rparr>"
  by code_simp

lemma conv_example_stride2:
  "fst (Conv2D_forward int_sem 0 \<lparr>shape = [1, 1, 5, 5], cl = 0\<rparr> \<lparr>shape = [1, 1, 3, 3], cl = 1\<rparr>
          (StrideInt 2) 1 (int_device [replicate 25 1, replicate 9 2]))
   = Inr \<lparr>shape = [1, 1, 2, 2], cl = 2\<rparr>"
  by code_simp

theorem Conv2D_forward_contract_witness:
  "Conv2D_forward int_sem 0 \<lparr>shape = [1, 1, 5, 5], cl = 0\<rparr> \<lparr>shape = [1, 1, 3, 3], cl = 1\<rparr>
       (StrideInt 1) 2 (int_device [replicate 25 1, replicate 9 2])
     = (Inl AssertionError, int_device [replicate 25 1, replicate 9 2]) \<and>
   fst (Conv2D_forward int_sem 0 \<lparr>shape = [1, 1, 5, 5], cl = 0\<rparr> \<lparr>shape = [1, 1, 3, 3], cl = 1\<rparr>
          (StrideInt 1) 1 (int_device [replicate 25 1, replicate 9 2]))
     = Inr \<lparr>shape = [1, 1, (5 - (3 - 1)) div 1, (5 - (3 - 1)) div 1], cl = 2\<rparr> \<and>
   fst (Conv2D_forward int_sem 0 \<lparr>shape = [1, 1, 5, 5], cl = 0\<rparr> \<lparr>shape = [1, 1, 3, 3], cl = 1\<rparr>
          (StrideInt 2) 1 (int_device [replicate 25 1, replicate 9 2]))
     = Inr \<lparr>shape = [1, 1, (5 - (3 - 2)) div 2, (5 - (3 - 2)) div 2], cl = 2\<rparr>"
proof -
  let ?s = "int_device [replicate 25 1, replicate 9 2]"
  let ?x = "\<lparr>shape = [1, 1, 5, 5], cl = 0\<rparr>" and ?w = "\<lparr>shape = [1, 1, 3, 3], cl = 1\<rparr>"
  have a: "Conv2D_forward int_sem 0 ?x ?w (StrideInt 1) 2 ?s = (Inl AssertionError, ?s)"
    using Conv2D_forward_contract [of ?w 1 1 3 3 ?x 1 1 5 5 "StrideInt 1" 1 1 2 int_sem 0 ?s]
    by (simp add: stride_pair_def)
  have 1: "Conv2D_forward int_sem 0 ?x ?w (StrideInt 1) 1 ?s
           = (Inr \<lparr>shape = [1, 1, 3, 3], cl = 2\<rparr>, snd (Conv2D_forward int_sem 0 ?x ?w (StrideInt 1) 1 ?s))"
    using conv_example_stride1 by (metis prod.collapse)
  have 2: "Conv2D_forward int_sem 0 ?x ?w (StrideInt 2) 1 ?s
           = (Inr \<lparr>shape = [1, 1, 2, 2], cl = 2\<rparr>, snd (Conv2D_forward int_sem 0 ?x ?w (StrideInt 2) 1 ?s))"
    using conv_example_stride2 by (metis prod.collapse)
  have b: "shape \<lparr>shape = [1, 1, 3, 3], cl = 2\<rparr> = [1, 1, (5 - (3 - 1)) div 1, (5 - (3 - 1)) div 1]"
    using Conv2D_forward_contract [of ?w _ _ _ _ ?x _ _ _ _ "StrideInt 1" _ _ 1 int_sem 0 ?s
        "\<lparr>shape = [1, 1, 3, 3], cl = 2\<rparr>" "snd (Conv2D_forward int_sem 0 ?x ?w (StrideInt 1) 1 ?s)"] 1
    by (auto simp: stride_pair_def)
  have c: "shape \<lparr>shape = [1, 1, 2, 2], cl = 2\<rparr> = [1, 1, (5 - (3 - 2)) div 2, (5 - (3 - 2)) div 2]"
    using Conv2D_forward_contract [of ?w _ _ _ _ ?x _ _ _ _ "StrideInt 2" _ _ 1 int_sem 0 ?s
        "\<lparr>shape = [1, 1, 2, 2], cl = 2\<rparr>" "snd (Conv2D_forward int_sem 0 ?x ?w (StrideInt 2) 1 ?s)"] 2
    by (auto simp: stride_pair_def)
  show ?thesis
    using a b c conv_example_stride1 conv_example_stride2 by simp
qed

lemma run_threads_untouched:
  assumes "run_threads buf ws = Some b" "\<forall>w \<in> set ws. \<forall>j v. w = Some (j, v) \<longrightarrow> nat j \<noteq> i"
  shows "b ! i = buf ! i"
  using assms
proof (induction buf ws rule: run_threads.induct)
  case (3 buf j v ws)
  then show ?case by (auto split: if_splits)
qed simp_all

lemma run_threads_writes:
  assumes "\<forall>t \<in> set ts. body t = Some (f t, g t) \<and> 0 \<le> f t \<and> f t < int (length buf)"
    and "distinct (map f ts)"
  shows "\<exists>b. run_threads buf (map body ts) = Some b \<and> length b = length buf \<and>
             (\<forall>t \<in> set ts. b ! nat (f t) = g t)"
  using assms
proof (induction ts arbitrary: buf)
  case Nil
  then show ?case by simp
next
  case (Cons t ts)
  let ?buf = "buf[nat (f t) := g t]"
  have t: "body t = Some (f t, g t)" "0 \<le> f t" "f t < int (length buf)"
    using Cons.prems(1) by auto
  have "\<forall>u \<in> set ts. body u = Some (f u, g u) \<and> 0 \<le> f u \<and> f u < int (length ?buf)"
    using Cons.prems(1) by simp
  moreover have "distinct (map f ts)" using Cons.prems(2) by simp
  ultimately obtain b where b: "run_threads ?buf (map body ts) = Some b" "length b = length ?buf"
    "\<forall>u \<in> set ts. b ! nat (f u) = g u"
    using Cons.IH [of ?buf] by blast
  have "\<forall>w \<in> set (map body ts). \<forall>j v. w = Some (j, v) \<longrightarrow> nat j \<noteq> nat (f t)"
  proof (intro ballI allI impI)
    fix w j v assume "w \<in> set (map body ts)" "w = Some (j, v)"
    then obtain u where u: "u \<in> set ts" "body u = Some (j, v)" by auto
    then have "j = f u" "0 \<le> f u" using Cons.prems(1) by auto
    moreover have "f u \<noteq> f t" using u(1) Cons.prems(2) by (auto simp: image_iff)
    ultimately show "nat j \<noteq> nat (f t)" using t(2) by simp
  qed
  then have "b ! nat (f t) = ?buf ! nat (f t)"
    using run_threads_untouched [OF b(1)] by blast
  then have "b ! nat (f t) = g t" using t by simp
  then show ?case using b t by simp
qed

lemma launch_writes:
  assumes "out < length (mem s)"
    and "\<forall>t \<in> set ts. body t = Some (f t, g t) \<and> 0 \<le> f t \<and> f t < int (length (mem s ! out))"
    and "distinct (map f ts)"
  shows "\<exists>d. launch k out (map body ts) s
               = (Inr (), s\<lparr>mem := (mem s)[out := d], launches := launches s @ [k]\<rparr>) \<and>
             length d = length (mem s ! out) \<and> (\<forall>t \<in> set ts. d ! nat (f t) = g t)"
  using run_threads_writes [OF assms(2,3)] assms(1) by (auto simp: launch_def)

lemma mac_loop_ok:
  assumes "\<forall>x \<in> set xs. 0 \<le> fi x \<and> fi x < int (length A) \<and> 0 \<le> fw x \<and> fw x < int (length B)"
  shows "mac_loop F A B fi fw xs acc
         = Some (foldl (\<lambda>acc x. fadd F acc (fmul F (A ! nat (fi x)) (B ! nat (fw x)))) acc xs)"
  using assms by (induction xs arbitrary: acc) (simp_all add: rd_def)

lemma set_gids: "set (gids n) = {g. 0 \<le> g \<and> g < n}"
proof -
  have "g \<in> int ` {0..<nat n} \<longleftrightarrow> 0 \<le> g \<and> g < n" for g
    by (auto simp: image_iff intro!: bexI [of _ "nat g"])
  then show ?thesis by (auto simp: gids_def)
qed

lemma distinct_gids: "distinct (gids n)"
  by (simp add: gids_def distinct_map inj_on_def)

lemma set_gids3:
  "set (gids3 a b c) = {(X, Y, Z). 0 \<le> X \<and> X < a \<and> 0 \<le> Y \<and> Y < b \<and> 0 \<le> Z \<and> Z < c}"
  by (auto simp: gids3_def set_gids)

lemma gids3_product:
  "gids3 a b c = map (\<lambda>(Z, X, Y). (X, Y, Z)) (List.product (gids c) (List.product (gids a) (gids b)))"
  by (simp add: gids3_def product_concat_map map_concat comp_def)

lemma distinct_gids3: "distinct (gids3 a b c)"
  unfolding gids3_product
  by (intro iffD2 [OF distinct_map] conjI distinct_product distinct_gids) (auto simp: inj_on_def)

lemma idx3_bounds:
  assumes "0 \<le> a" "a < A" "0 \<le> b" "b < B" "0 \<le> c" "c < (C::int)"
  shows "0 \<le> c * A * B + a * B + b" "c * A * B + a * B + b < C * A * B"
proof -
  have 1: "a * B + b < A * B"
  proof -
    have "(a + 1) * B \<le> A * B" using assms by (intro mult_right_mono) auto
    then show ?thesis using assms by (simp add: algebra_simps)
  qed
  have 2: "0 \<le> a * B + b" using assms by simp
  have "(c + 1) * (A * B) \<le> C * (A * B)" using assms 1 2 by (intro mult_right_mono) auto
  then show "c * A * B + a * B + b < C * A * B" using 1 by (simp add: algebra_simps)
  have "0 \<le> c * (A * B)" using assms 1 2 by (intro mult_nonneg_nonneg) auto
  then show "0 \<le> c * A * B + a * B + b" using 2 by (simp add: algebra_simps)
qed

lemma idx3_inj:
  assumes "0 \<le> a" "a < A" "0 \<le> b" "b < B" "0 \<le> a'" "a' < A" "0 \<le> b'" "b' < (B::int)"
    and "c * A * B + a * B + b = c' * A * B + a' * B + b'"
  shows "a = a' \<and> b = b' \<and> c = c'"
proof -
  have e: "(c * A + a) * B + b = (c' * A + a') * B + b'"
    using assms(9) by (simp add: algebra_simps)
  have "((c * A + a) * B + b) mod B = b" "((c' * A + a') * B + b') mod B = b'"
    using assms by simp_all
  then have b: "b = b'" using e by simp
  have "((c * A + a) * B + b) div B = c * A + a" "((c' * A + a') * B + b') div B = c' * A + a'"
    using assms by simp_all
  then have e2: "c * A + a = c' * A + a'" using e by simp
  have "(c * A + a) mod A = a" "(c' * A + a') mod A = a'" using assms by simp_all
  then have a: "a = a'" using e2 by simp
  have "(c * A + a) div A = c" "(c' * A + a') div A = c'" using assms by simp_all
  then have "c = c'" using e2 by simp
  then show ?thesis using a b by simp
qed

lemma matmul_launch:
  fixes I O' M cnt :: int
  assumes out: "out < length (mem s)" "int (length (mem s ! out)) = cnt * I * O'"
    and src: "ksrc k = MatmulSrc"
    and reads: "\<And>X Y st x. 0 \<le> X \<Longrightarrow> X < I \<Longrightarrow> 0 \<le> Y \<Longrightarrow> Y < O' \<Longrightarrow> 0 \<le> st \<Longrightarrow> st < cnt \<Longrightarrow>
                 0 \<le> x \<Longrightarrow> x < M \<Longrightarrow>
                 0 \<le> X * is0 + x * is1 + I * M * st \<and> X * is0 + x * is1 + I * M * st < int (length A) \<and>
                 0 \<le> Y * ws0 + x * ws1 + M * O' * st \<and> Y * ws0 + x * ws1 + M * O' * st < int (length B)"
  shows "\<exists>d. launch k out (map (matmul_thread F (ksrc k) A B I is0 is1 M ws0 ws1 O') (gids3 I O' cnt)) s
              = (Inr (), s\<lparr>mem := (mem s)[out := d], launches := launches s @ [k]\<rparr>) \<and>
            length d = length (mem s ! out) \<and>
            (\<forall>X Y st. 0 \<le> X \<and> X < I \<and> 0 \<le> Y \<and> Y < O' \<and> 0 \<le> st \<and> st < cnt \<longrightarrow>
               at3 d I O' st X Y
                 = foldl (\<lambda>acc x. fadd F acc (fmul F (A ! nat (X * is0 + x * is1 + I * M * st))
                                                      (B ! nat (Y * ws0 + x * ws1 + M * O' * st))))
                         (fzero F) (gids M))"
proof -
  define f where "f = (\<lambda>(X, Y, st). X * O' + Y + I * O' * st)"
  define g where "g = (\<lambda>(X, Y, st).
      foldl (\<lambda>acc x. fadd F acc (fmul F (A ! nat (X * is0 + x * is1 + I * M * st))
                                         (B ! nat (Y * ws0 + x * ws1 + M * O' * st))))
            (fzero F) (gids M))"
  let ?ts = "gids3 I O' cnt"
  let ?body = "matmul_thread F (ksrc k) A B I is0 is1 M ws0 ws1 O'"
  have fe: "f (X, Y, st) = st * I * O' + X * O' + Y" for X Y st
    by (simp add: f_def algebra_simps)
  have 1: "\<forall>t \<in> set ?ts. ?body t = Some (f t, g t) \<and> 0 \<le> f t \<and> f t < int (length (mem s ! out))"
  proof
    fix t assume t: "t \<in> set ?ts"
    obtain X Y st where tt: "t = (X, Y, st)" by (cases t)
    have r: "0 \<le> X" "X < I" "0 \<le> Y" "Y < O'" "0 \<le> st" "st < cnt"
      using t by (auto simp: tt set_gids3)
    have "\<forall>x \<in> set (gids M).
            0 \<le> X * is0 + x * is1 + I * M * st \<and> X * is0 + x * is1 + I * M * st < int (length A) \<and>
            0 \<le> Y * ws0 + x * ws1 + M * O' * st \<and> Y * ws0 + x * ws1 + M * O' * st < int (length B)"
      using reads [OF r] by (simp add: set_gids)
    then have "?body t = Some (f t, g t)"
      by (simp add: matmul_thread_def src tt mac_loop_ok f_def g_def)
    moreover have "0 \<le> f t" "f t < int (length (mem s ! out))"
      using idx3_bounds [OF r(1,2,3,4,5,6)] by (simp_all add: tt fe out(2))
    ultimately show "?body t = Some (f t, g t) \<and> 0 \<le> f t \<and> f t < int (length (mem s ! out))"
      by simp
  qed
  have "inj_on f (set ?ts)"
  proof (rule inj_onI)
    fix t u assume t: "t \<in> set ?ts" and u: "u \<in> set ?ts" and e: "f t = f u"
    obtain X Y st where tt: "t = (X, Y, st)" by (cases t)
    obtain X' Y' st' where uu: "u = (X', Y', st')" by (cases u)
    have r: "0 \<le> X" "X < I" "0 \<le> Y" "Y < O'" "0 \<le> X'" "X' < I" "0 \<le> Y'" "Y' < O'"
      using t u by (auto simp: tt uu set_gids3)
    have "st * I * O' + X * O' + Y = st' * I * O' + X' * O' + Y'"
      using e by (simp add: tt uu fe)
    then show "t = u" using idx3_inj [OF r] by (simp add: tt uu)
  qed
  then have 2: "distinct (map f ?ts)"
    by (simp add: distinct_map distinct_gids3)
  obtain d where d: "launch k out (map ?body ?ts) s
               = (Inr (), s\<lparr>mem := (mem s)[out := d], launches := launches s @ [k]\<rparr>)"
      "length d = length (mem s ! out)" "\<forall>t \<in> set ?ts. d ! nat (f t) = g t"
    using launch_writes [OF out(1) 1 2, of k] by blast
  have "at3 d I O' st X Y
          = foldl (\<lambda>acc x. fadd F acc (fmul F (A ! nat (X * is0 + x * is1 + I * M * st))
                                               (B ! nat (Y * ws0 + x * ws1 + M * O' * st))))
                  (fzero F) (gids M)"
    if "0 \<le> X \<and> X < I \<and> 0 \<le> Y \<and> Y < O' \<and> 0 \<le> st \<and> st < cnt" for X Y st
  proof -
    have "(X, Y, st) \<in> set ?ts" using that by (simp add: set_gids3)
    then have "d ! nat (f (X, Y, st)) = g (X, Y, st)" using d(3) by blast
    then show ?thesis by (simp add: at3_def fe g_def)
  qed
  then show ?thesis using d(1,2) by blast
qed

lemma py_nth_last2:
  "py_nth (xs @ [a, b]) (- 1) = Inr b"
  "py_nth (xs @ [a, b]) (- 2) = Inr a"
proof -
  have n: "nat (1 + int (length xs)) = Suc (length xs)" by simp
  show "py_nth (xs @ [a, b]) (- 1) = Inr b" "py_nth (xs @ [a, b]) (- 2) = Inr a"
    by (simp_all add: py_nth_def py_index_def nth_append n)
qed

lemma take_last2: "take (length (xs @ [a, b]) - 2) (xs @ [a, b]) = xs"
  by simp

lemma matmul_cnt:
  "(if 2 < length (lead @ [a, b]) then prod_list (take (length (lead @ [a, b]) - 2) (lead @ [a, b])) else 1)
   = prod_list (lead :: int list)"
  by (cases lead) simp_all

lemma Matmul_forward_ok:
  assumes wi: "wf_buffer s inp" and ww: "wf_buffer s w" and co: "cache_ok s"
    and si: "shape inp = lead @ [i, m]" and sw: "shape w = wlead @ [m, o']"
    and pl: "prod_list wlead = prod_list lead"
  shows "\<exists>ret k s'. Matmul_forward F thr inp w s = (Inr (ret, (inp, w, k, prod_list lead)), s') \<and>
           shape ret = lead @ [i, o'] \<and> wf_buffer s' ret \<and> cl ret = length (mem s) \<and>
           ksrc k = MatmulSrc \<and> launches s' = launches s @ [k] \<and>
           take (length (mem s)) (mem s') = mem s \<and> cache_ok s' \<and>
           (\<forall>b X Y. 0 \<le> b \<and> b < prod_list lead \<and> 0 \<le> X \<and> X < i \<and> 0 \<le> Y \<and> Y < o' \<longrightarrow>
              at3 (contents s' ret) i o' b X Y
                = dot F m (\<lambda>k. at3 (contents s inp) i m b X k) (\<lambda>k. at3 (contents s w) m o' b k Y))"
proof -
  let ?cnt = "prod_list lead"
  have pos: "0 < i" "0 < m" "0 < o'" "\<forall>d \<in> set lead. 0 < d"
    using wi ww by (auto simp: wf_buffer_def si sw)
  have cnt: "0 < ?cnt" using pos(4) by (rule prod_list_pos_int)
  let ?rs = "lead @ [i, o']"
  have rpos: "\<forall>d \<in> set ?rs. 0 \<le> d" using pos by (auto simp: less_imp_le)
  define s1 where "s1 = s\<lparr>mem := mem s @ [map (fresh s) [0..<nat (prod_list ?rs)]]\<rparr>"
  let ?ret = "\<lparr>shape = ?rs, cl = length (mem s)\<rparr>"
  have bn: "buffer_new F ?rs False s = (Inr ?ret, s1)"
    using rpos by (subst buffer_new_ok) (auto simp: s1_def)
  obtain k s2 where cb: "clbuild thr MatmulSrc ''matmul'' s1 = (k, s2)"
    by (cases "clbuild thr MatmulSrc ''matmul'' s1")
  have co1: "cache_ok s1" using co by (simp add: s1_def)
  have s2: "mem s2 = mem s1" "fresh s2 = fresh s1" "uploads s2 = uploads s1" "launches s2 = launches s1"
    using clbuild_fields [of thr MatmulSrc "''matmul''" s1] cb by simp_all
  have k: "ksrc k = MatmulSrc" and co2: "cache_ok s2"
    using clbuild_ksrc [OF co1, of thr MatmulSrc "''matmul''"]
      clbuild_cache_ok [OF co1, of thr MatmulSrc "''matmul''"] cb by simp_all
  have m2: "mem s2 = mem s @ [map (fresh s) [0..<nat (prod_list ?rs)]]"
    by (simp add: s2 s1_def)
  have ci: "contents s2 inp = contents s inp" and cw: "contents s2 w = contents s w"
    using wi ww by (simp_all add: contents_def m2 wf_buffer_def nth_append)
  let ?A = "contents s inp" and ?B = "contents s w"
  have lA: "int (length ?A) = ?cnt * i * m" and lB: "int (length ?B) = ?cnt * m * o'"
    using wi ww pos cnt by (simp_all add: contents_wf wf_buffer_def si sw pl mult.assoc)
  have out: "length (mem s) < length (mem s2)"
    "int (length (mem s2 ! length (mem s))) = ?cnt * i * o'"
    using pos cnt by (simp_all add: m2 mult.assoc)
  have reads: "0 \<le> X * m + x * 1 + i * m * st \<and> X * m + x * 1 + i * m * st < int (length ?A) \<and>
               0 \<le> Y * 1 + x * o' + m * o' * st \<and> Y * 1 + x * o' + m * o' * st < int (length ?B)"
    if "0 \<le> X" "X < i" "0 \<le> Y" "Y < o'" "0 \<le> st" "st < ?cnt" "0 \<le> x" "x < m" for X Y st x
  proof -
    show ?thesis
      using idx3_bounds [OF that(1,2,7,8,5,6)] idx3_bounds [OF that(7,8,3,4,5,6)]
      by (simp add: lA lB algebra_simps)
  qed
  obtain d where d: "launch k (length (mem s))
        (map (matmul_thread F (ksrc k) ?A ?B i m 1 m 1 o' o') (gids3 i o' ?cnt)) s2
        = (Inr (), s2\<lparr>mem := (mem s2)[length (mem s) := d], launches := launches s2 @ [k]\<rparr>)"
      "length d = length (mem s2 ! length (mem s))"
      "\<forall>X Y st. 0 \<le> X \<and> X < i \<and> 0 \<le> Y \<and> Y < o' \<and> 0 \<le> st \<and> st < ?cnt \<longrightarrow>
         at3 d i o' st X Y
           = foldl (\<lambda>acc x. fadd F acc (fmul F (?A ! nat (X * m + x * 1 + i * m * st))
                                                (?B ! nat (Y * 1 + x * o' + m * o' * st))))
                   (fzero F) (gids m)"
    using matmul_launch [OF out k reads, of F] by blast
  define s3 where "s3 = s2\<lparr>mem := (mem s2)[length (mem s) := d], launches := launches s2 @ [k]\<rparr>"
  have m3: "mem s3 = mem s @ [d]" by (simp add: s3_def m2)
  have run: "Matmul_forward F thr inp w s = (Inr (?ret, (inp, w, k, ?cnt)), s3)"
    unfolding Matmul_forward_def si sw py_nth_last2 on_val_simps Let_def matmul_cnt
    apply (simp only: simp_thms if_False)
    apply (simp only: take_last2 bn on_ok_simps cb prod.case buffer.simps ci cw d(1))
    apply (simp add: s3_def)
    done
  have vals: "at3 (contents s3 ?ret) i o' b X Y
                = dot F m (\<lambda>k. at3 ?A i m b X k) (\<lambda>k. at3 ?B m o' b k Y)"
    if "0 \<le> b \<and> b < ?cnt \<and> 0 \<le> X \<and> X < i \<and> 0 \<le> Y \<and> Y < o'" for b X Y
  proof -
    have e: "X * m + x + i * m * b = b * i * m + X * m + x"
            "Y + x * o' + m * o' * b = b * m * o' + x * o' + Y" for x
      by (simp_all add: algebra_simps)
    have "contents s3 ?ret = d" by (simp add: contents_def m3)
    then show ?thesis
      using d(3) [rule_format, of X Y b] that by (simp add: dot_def at3_def e)
  qed
  have wf: "wf_buffer s3 ?ret"
    using pos d(2) out(2) cnt by (auto simp: wf_buffer_def m3 m2 mult.assoc)
  have "launches s3 = launches s @ [k]" "take (length (mem s)) (mem s3) = mem s" "cache_ok s3"
    using co2 by (simp_all add: s3_def s2 s1_def m2)
  then show ?thesis using run wf vals k by (intro exI [of _ ?ret] exI [of _ k] exI [of _ s3]) simp
qed

lemma Matmul_forward_assert:
  assumes "py_nth (shape inp) (- 1) = Inr m1" "py_nth (shape w) (- 2) = Inr m2" "m1 \<noteq> m2"
  shows "Matmul_forward F thr inp w s = (Inl AssertionError, s)"
  using assms by (simp add: Matmul_forward_def)

subsection \<open>Claim C3\<close>

text \<open>
  Claim C3, as amended. \<open>Matmul.forward\<close> fails its assertion whenever
  \<open>input.shape[-1] \<noteq> weight.shape[-2]\<close>. When the input has shape \<open>lead + (i, m)\<close> and
  the weight has shape \<open>wlead + (m, o)\<close> and holds as many matrices as the input, the
  result has shape \<open>lead + (i, o)\<close> and its \<open>b\<close>-th matrix is the product of the \<open>b\<close>-th
  matrix of the input with the \<open>b\<close>-th matrix of the weight.
\<close>

theorem Matmul_forward_batched:
  "(py_nth (shape inp) (- 1) = Inr m1 \<and> py_nth (shape w) (- 2) = Inr m2 \<and> m1 \<noteq> m2
      \<longrightarrow> Matmul_forward F thr inp w s = (Inl AssertionError, s)) \<and>
   (wf_buffer s inp \<and> wf_buffer s w \<and> cache_ok s \<and>
    shape inp = lead @ [i, m] \<and> shape w = wlead @ [m, o'] \<and> prod_list wlead = prod_list lead
      \<longrightarrow> (\<exists>ret saved s'. Matmul_forward F thr inp w s = (Inr (ret, saved), s') \<and>
             shape ret = lead @ [i, o'] \<and> wf_buffer s' ret \<and>
             (\<forall>b X Y. 0 \<le> b \<and> b < prod_list lead \<and> 0 \<le> X \<and> X < i \<and> 0 \<le> Y \<and> Y < o' \<longrightarrow>
                at3 (contents s' ret) i o' b X Y
                  = dot F m (\<lambda>k. at3 (contents s inp) i m b X k)
                            (\<lambda>k. at3 (contents s w) m o' b k Y))))"
proof (intro conjI impI)
  assume "py_nth (shape inp) (- 1) = Inr m1 \<and> py_nth (shape w) (- 2) = Inr m2 \<and> m1 \<noteq> m2"
  then show "Matmul_forward F thr inp w s = (Inl AssertionError, s)"
    by (intro Matmul_forward_assert [of inp m1 w m2]) simp_all
next
  assume a: "wf_buffer s inp \<and> wf_buffer s w \<and> cache_ok s \<and>
    shape inp = lead @ [i, m] \<and> shape w = wlead @ [m, o'] \<and> prod_list wlead = prod_list lead"
  then have h: "wf_buffer s inp" "wf_buffer s w" "cache_ok s"
    "shape inp = lead @ [i, m]" "shape w = wlead @ [m, o']" "prod_list wlead = prod_list lead"
    by simp_all
  from Matmul_forward_ok [OF h, of F thr] obtain ret k s' where
    "Matmul_forward F thr inp w s = (Inr (ret, (inp, w, k, prod_list lead)), s')"
    "shape ret = lead @ [i, o']" "wf_buffer s' ret"
    "\<forall>b X Y. 0 \<le> b \<and> b < prod_list lead \<and> 0 \<le> X \<and> X < i \<and> 0 \<le> Y \<and> Y < o' \<longrightarrow>
              at3 (contents s' ret) i o' b X Y
                = dot F m (\<lambda>k. at3 (contents s inp) i m b X k) (\<lambda>k. at3 (contents s w) m o' b k Y)"
    by (elim conjE exE)
  then show "\<exists>ret saved s'. Matmul_forward F thr inp w s = (Inr (ret, saved), s') \<and>
             shape ret = lead @ [i, o'] \<and> wf_buffer s' ret \<and>
             (\<forall>b X Y. 0 \<le> b \<and> b < prod_list lead \<and> 0 \<le> X \<and> X < i \<and> 0 \<le> Y \<and> Y < o' \<longrightarrow>
                at3 (contents s' ret) i o' b X Y
                  = dot F m (\<lambda>k. at3 (contents s inp) i m b X k)
                            (\<lambda>k. at3 (contents s w) m o' b k Y))"
    by (intro exI [of _ ret] exI [of _ "(inp, w, k, prod_list lead)"] exI [of _ s']) simp
qed

theorem Matmul_forward_batched_witness:
  "Matmul_forward int_sem 0 \<lparr>shape = [2, 1, 2], cl = 0\<rparr> \<lparr>shape = [3, 1], cl = 1\<rparr>
      (int_device [[1, 2, 3, 4], [5, 6, 7]])
     = (Inl AssertionError, int_device [[1, 2, 3, 4], [5, 6, 7]]) \<and>
   wf_buffer (int_device [[1, 2, 3, 4], [5, 6, 7, 8]]) \<lparr>shape = [2, 1, 2], cl = 0\<rparr> \<and>
   wf_buffer (int_device [[1, 2, 3, 4], [5, 6, 7, 8]]) \<lparr>shape = [2, 2, 1], cl = 1\<rparr> \<and>
   cache_ok (int_device [[1, 2, 3, 4], [5, 6, 7, 8]]) \<and>
   (\<exists>ret saved s'. Matmul_forward int_sem 0 \<lparr>shape = [2, 1, 2], cl = 0\<rparr> \<lparr>shape = [2, 2, 1], cl = 1\<rparr>
                      (int_device [[1, 2, 3, 4], [5, 6, 7, 8]]) = (Inr (ret, saved), s') \<and>
      shape ret = [2, 1, 1] \<and> at3 (contents s' ret) 1 1 0 0 0 = 17 \<and>
      at3 (contents s' ret) 1 1 1 0 0 = 53)"
proof -
  let ?s = "int_device [[1, 2, 3, 4], [5, 6, 7, 8]]"
  let ?i = "\<lparr>shape = [2, 1, 2], cl = 0\<rparr>" and ?w = "\<lparr>shape = [2, 2, 1], cl = 1\<rparr>"
  have a: "Matmul_forward int_sem 0 ?i \<lparr>shape = [3, 1], cl = 1\<rparr> (int_device [[1, 2, 3, 4], [5, 6, 7]])
           = (Inl AssertionError, int_device [[1, 2, 3, 4], [5, 6, 7]])"
    using Matmul_forward_batched [of ?i 2 "\<lparr>shape = [3, 1], cl = 1\<rparr>" 3 int_sem 0
        "int_device [[1, 2, 3, 4], [5, 6, 7]]"]
    by (simp add: py_nth_def py_index_def)
  have wi: "wf_buffer ?s ?i" and ww: "wf_buffer ?s ?w" and co: "cache_ok ?s"
    by (simp_all add: wf_buffer_def cache_ok_def int_device_def device0_def)
  have ci: "contents ?s ?i = [1, 2, 3, 4]" and cw: "contents ?s ?w = [5, 6, 7, 8]"
    by (simp_all add: contents_def int_device_def device0_def)
  have g: "gids 2 = [0, 1]" by code_simp
  have d0: "dot int_sem 2 (\<lambda>k. at3 [1, 2, 3, 4] 1 2 0 0 k) (\<lambda>k. at3 [5, 6, 7, 8] 2 1 0 k 0) = 17"
    and d1: "dot int_sem 2 (\<lambda>k. at3 [1, 2, 3, 4] 1 2 1 0 k) (\<lambda>k. at3 [5, 6, 7, 8] 2 1 1 k 0) = 53"
    by (simp_all add: dot_def g at3_def int_sem_def)
  have hyp: "wf_buffer ?s ?i \<and> wf_buffer ?s ?w \<and> cache_ok ?s \<and>
        shape ?i = [2] @ [1, 2] \<and> shape ?w = [2] @ [2, 1] \<and> prod_list [2::int] = prod_list [2]"
    using wi ww co by simp
  have "\<exists>ret saved s'. Matmul_forward int_sem 0 ?i ?w ?s = (Inr (ret, saved), s') \<and>
          shape ret = [2] @ [1, 1] \<and> wf_buffer s' ret \<and>
          (\<forall>b X Y. 0 \<le> b \<and> b < prod_list [2] \<and> 0 \<le> X \<and> X < 1 \<and> 0 \<le> Y \<and> Y < 1 \<longrightarrow>
              at3 (contents s' ret) 1 1 b X Y
                = dot int_sem 2 (\<lambda>k. at3 (contents ?s ?i) 1 2 b X k) (\<lambda>k. at3 (contents ?s ?w) 2 1 b k Y))"
    by (rule mp [OF conjunct2 [OF Matmul_forward_batched [of ?i 0 ?w 0 int_sem 0 ?s "[2]" 1 2 "[2]" 1]] hyp])
  then obtain ret saved s' where r: "Matmul_forward int_sem 0 ?i ?w ?s = (Inr (ret, saved), s')"
    "shape ret = [2] @ [1, 1]"
    and v: "\<forall>b X Y. 0 \<le> b \<and> b < prod_list [2] \<and> 0 \<le> X \<and> X < 1 \<and> 0 \<le> Y \<and> Y < 1 \<longrightarrow>
              at3 (contents s' ret) 1 1 b X Y
                = dot int_sem 2 (\<lambda>k. at3 (contents ?s ?i) 1 2 b X k) (\<lambda>k. at3 (contents ?s ?w) 2 1 b k Y)"
    by (elim conjE exE)
  have "at3 (contents s' ret) 1 1 0 0 0 = 17" "at3 (contents s' ret) 1 1 1 0 0 = 53"
    using v [unfolded ci cw, rule_format, of 0 0 0] v [unfolded ci cw, rule_format, of 1 0 0]
    by (simp_all add: d0 d1)
  then show ?thesis
    using a wi ww co r by (intro conjI exI [of _ ret] exI [of _ saved] exI [of _ s']) simp_all
qed

text \<open>
  Claim C3, as stated, fails on its own example: with an input of shape \<open>(2,3,4)\<close> and a
  weight of shape \<open>(4,5)\<close> the thread of the second batch reads the weight at index 20
  and beyond, outside its 20 elements, since the kernel adds \<open>msize*osize*stride\<close> to
  the index into the weight.
\<close>

theorem Matmul_forward_unbatched_weight:
  "fst (Matmul_forward int_sem 0 \<lparr>shape = [2, 3, 4], cl = 0\<rparr> \<lparr>shape = [4, 5], cl = 1\<rparr>
          (int_device [replicate 24 1, replicate 20 1])) = Inl DeviceFault \<and>
   matmul_thread int_sem MatmulSrc (replicate 24 1) (replicate 20 1) 3 4 1 4 1 5 5 (0, 0, 1) = None"
  by code_simp

lemma Matmul_backward_ok:
  assumes wi: "wf_buffer s inp" and ww: "wf_buffer s w" and wg: "wf_buffer s g"
    and si: "shape inp = lead @ [i, m]" and sw: "shape w = wlead @ [m, o']"
    and pl: "prod_list wlead = prod_list lead" and sg: "shape g = lead @ [i, o']"
    and k: "ksrc k = MatmulSrc"
  shows "\<exists>gi gw s'. Matmul_backward F thr (inp, w, k, prod_list lead) g s = (Inr (gi, gw), s') \<and>
           shape gi = shape inp \<and> shape gw = shape w \<and> wf_buffer s' gi \<and> wf_buffer s' gw \<and>
           launches s' = launches s @ [k, k] \<and> compiled s' = compiled s \<and>
           build_cache s' = build_cache s \<and>
           (\<forall>b X Y. 0 \<le> b \<and> b < prod_list lead \<and> 0 \<le> X \<and> X < i \<and> 0 \<le> Y \<and> Y < m \<longrightarrow>
              at3 (contents s' gi) i m b X Y
                = dot F o' (\<lambda>k. at3 (contents s g) i o' b X k) (\<lambda>k. at3 (contents s w) m o' b Y k)) \<and>
           (\<forall>b X Y. 0 \<le> b \<and> b < prod_list lead \<and> 0 \<le> X \<and> X < m \<and> 0 \<le> Y \<and> Y < o' \<longrightarrow>
              at3 (contents s' gw) m o' b X Y
                = dot F i (\<lambda>k. at3 (contents s inp) i m b k X) (\<lambda>k. at3 (contents s g) i o' b k Y))"
proof -
  let ?cnt = "prod_list lead"
  have pos: "0 < i" "0 < m" "0 < o'" "\<forall>d \<in> set lead. 0 < d" "\<forall>d \<in> set wlead. 0 < d"
    using wi ww by (auto simp: wf_buffer_def si sw)
  have cnt: "0 < ?cnt" using pos(4) by (rule prod_list_pos_int)
  have nn: "\<forall>d \<in> set (shape inp). 0 \<le> d" "\<forall>d \<in> set (shape w). 0 \<le> d"
    using pos by (auto simp: si sw less_imp_le)
  let ?n = "length (mem s)"
  let ?f1 = "map (fresh s) [0..<nat (prod_list (shape inp))]"
  let ?f2 = "map (fresh s) [0..<nat (prod_list (shape w))]"
  define s1 where "s1 = s\<lparr>mem := mem s @ [?f1]\<rparr>"
  define s2 where "s2 = s1\<lparr>mem := mem s1 @ [?f2]\<rparr>"
  let ?gi = "\<lparr>shape = shape inp, cl = ?n\<rparr>" and ?gw = "\<lparr>shape = shape w, cl = Suc ?n\<rparr>"
  have bn1: "buffer_new F (shape inp) False s = (Inr ?gi, s1)"
    using nn(1) by (subst buffer_new_ok) (auto simp: s1_def)
  have bn2: "buffer_new F (shape w) False s1 = (Inr ?gw, s2)"
    using nn(2) by (subst buffer_new_ok) (auto simp: s2_def s1_def)
  have m2: "mem s2 = mem s @ [?f1, ?f2]" by (simp add: s2_def s1_def)
  let ?A = "contents s inp" and ?B = "contents s w" and ?G = "contents s g"
  have c2: "contents s2 inp = ?A" "contents s2 w = ?B" "contents s2 g = ?G"
    using wi ww wg by (simp_all add: contents_def m2 wf_buffer_def nth_append)
  have lA: "int (length ?A) = ?cnt * i * m" and lB: "int (length ?B) = ?cnt * m * o'"
    and lG: "int (length ?G) = ?cnt * i * o'"
    using wi ww wg pos cnt by (simp_all add: contents_wf wf_buffer_def si sw sg pl mult.assoc)
  have out1: "?n < length (mem s2)" "int (length (mem s2 ! ?n)) = ?cnt * i * m"
    using pos cnt by (simp_all add: m2 si mult.assoc)
  have reads1: "0 \<le> X * o' + x * 1 + i * o' * st \<and> X * o' + x * 1 + i * o' * st < int (length ?G) \<and>
               0 \<le> Y * o' + x * 1 + o' * m * st \<and> Y * o' + x * 1 + o' * m * st < int (length ?B)"
    if "0 \<le> X" "X < i" "0 \<le> Y" "Y < m" "0 \<le> st" "st < ?cnt" "0 \<le> x" "x < o'" for X Y st x
    using idx3_bounds [OF that(1,2,7,8,5,6)] idx3_bounds [OF that(3,4,7,8,5,6)]
    by (simp add: lG lB algebra_simps)
  obtain d1 where d1: "launch k ?n
        (map (matmul_thread F (ksrc k) ?G ?B i o' 1 o' o' 1 m) (gids3 i m ?cnt)) s2
        = (Inr (), s2\<lparr>mem := (mem s2)[?n := d1], launches := launches s2 @ [k]\<rparr>)"
      "length d1 = length (mem s2 ! ?n)"
      "\<forall>X Y st. 0 \<le> X \<and> X < i \<and> 0 \<le> Y \<and> Y < m \<and> 0 \<le> st \<and> st < ?cnt \<longrightarrow>
         at3 d1 i m st X Y
           = foldl (\<lambda>acc x. fadd F acc (fmul F (?G ! nat (X * o' + x * 1 + i * o' * st))
                                                (?B ! nat (Y * o' + x * 1 + o' * m * st))))
                   (fzero F) (gids o')"
    using matmul_launch [OF out1 k reads1, of F] by blast
  define s3 where "s3 = s2\<lparr>mem := (mem s2)[?n := d1], launches := launches s2 @ [k]\<rparr>"
  have m3: "mem s3 = mem s @ [d1, ?f2]" by (simp add: s3_def m2)
  have c3: "contents s3 inp = ?A" "contents s3 g = ?G"
    using wi wg by (simp_all add: contents_def m3 wf_buffer_def nth_append)
  have out2: "Suc ?n < length (mem s3)" "int (length (mem s3 ! Suc ?n)) = ?cnt * m * o'"
    using pos cnt prod_list_pos_int [OF pos(5)] by (simp_all add: m3 sw pl mult.assoc nth_append)
  have reads2: "0 \<le> X * 1 + x * m + m * i * st \<and> X * 1 + x * m + m * i * st < int (length ?A) \<and>
               0 \<le> Y * 1 + x * o' + i * o' * st \<and> Y * 1 + x * o' + i * o' * st < int (length ?G)"
    if "0 \<le> X" "X < m" "0 \<le> Y" "Y < o'" "0 \<le> st" "st < ?cnt" "0 \<le> x" "x < i" for X Y st x
    using idx3_bounds [OF that(7,8,1,2,5,6)] idx3_bounds [OF that(7,8,3,4,5,6)]
    by (simp add: lA lG algebra_simps)
  obtain d2 where d2: "launch k (Suc ?n)
        (map (matmul_thread F (ksrc k) ?A ?G m 1 m i 1 o' o') (gids3 m o' ?cnt)) s3
        = (Inr (), s3\<lparr>mem := (mem s3)[Suc ?n := d2], launches := launches s3 @ [k]\<rparr>)"
      "length d2 = length (mem s3 ! Suc ?n)"
      "\<forall>X Y st. 0 \<le> X \<and> X < m \<and> 0 \<le> Y \<and> Y < o' \<and> 0 \<le> st \<and> st < ?cnt \<longrightarrow>
         at3 d2 m o' st X Y
           = foldl (\<lambda>acc x. fadd F acc (fmul F (?A ! nat (X * 1 + x * m + m * i * st))
                                                (?G ! nat (Y * 1 + x * o' + i * o' * st))))
                   (fzero F) (gids i)"
    using matmul_launch [OF out2 k reads2, of F] by blast
  define s4 where "s4 = s3\<lparr>mem := (mem s3)[Suc ?n := d2], launches := launches s3 @ [k]\<rparr>"
  have m4: "mem s4 = mem s @ [d1, d2]" by (simp add: s4_def m3 list_update_append)
  have run: "Matmul_backward F thr (inp, w, k, ?cnt) g s = (Inr (?gi, ?gw), s4)"
    unfolding Matmul_backward_def prod.case si sw py_nth_last2 on_val_simps
    unfolding si [symmetric] sw [symmetric]
    apply (simp only: bn1 on_ok_simps bn2 buffer.simps c2 d1(1))
    apply (simp only: s3_def [symmetric] on_ok_simps c3 d2(1))
    apply (simp add: s4_def)
    done
  have v1: "at3 (contents s4 ?gi) i m b X Y
              = dot F o' (\<lambda>k. at3 ?G i o' b X k) (\<lambda>k. at3 ?B m o' b Y k)"
    if "0 \<le> b \<and> b < ?cnt \<and> 0 \<le> X \<and> X < i \<and> 0 \<le> Y \<and> Y < m" for b X Y
  proof -
    have e: "X * o' + x + i * o' * b = b * i * o' + X * o' + x"
            "Y * o' + x + o' * m * b = b * m * o' + Y * o' + x" for x
      by (simp_all add: algebra_simps)
    have "contents s4 ?gi = d1" by (simp add: contents_def m4 nth_append)
    then show ?thesis
      using d1(3) [rule_format, of X Y b] that by (simp add: dot_def at3_def e)
  qed
  have v2: "at3 (contents s4 ?gw) m o' b X Y
              = dot F i (\<lambda>k. at3 ?A i m b k X) (\<lambda>k. at3 ?G i o' b k Y)"
    if "0 \<le> b \<and> b < ?cnt \<and> 0 \<le> X \<and> X < m \<and> 0 \<le> Y \<and> Y < o'" for b X Y
  proof -
    have e: "X + x * m + m * i * b = b * i * m + x * m + X"
            "Y + x * o' + i * o' * b = b * i * o' + x * o' + Y" for x
      by (simp_all add: algebra_simps)
    have "contents s4 ?gw = d2" by (simp add: contents_def m4 nth_append)
    then show ?thesis
      using d2(3) [rule_format, of X Y b] that by (simp add: dot_def at3_def e)
  qed
  have wf1: "wf_buffer s4 ?gi"
    using wi d1(2) by (auto simp: wf_buffer_def m4 m2 nth_append)
  have wf2: "wf_buffer s4 ?gw"
    using ww d2(2) by (auto simp: wf_buffer_def m4 m3 nth_append)
  have fr: "launches s4 = launches s @ [k, k]" "compiled s4 = compiled s" "build_cache s4 = build_cache s"
    by (simp_all add: s4_def s3_def s2_def s1_def)
  show ?thesis
    using run wf1 wf2 fr v1 v2 by (intro exI [of _ ?gi] exI [of _ ?gw] exI [of _ s4]) simp
qed

subsection \<open>Claim C8\<close>

text \<open>
  Claim C8, as amended. Let \<open>Matmul.forward\<close> have run on an input of shape
  \<open>lead + (i, m)\<close> and a weight of shape \<open>wlead + (m, o)\<close> holding as many matrices as the
  input, and let \<open>g\<close> be a gradient of the shape of the result. Then \<open>Matmul.backward\<close>
  compiles nothing and launches the kernel object saved by the forward pass, twice, and
  returns two buffers: for every batch \<open>b\<close>, the matrix of \<open>grad_input\<close> is the product of
  the matrix of \<open>g\<close> with the transpose of the matrix of the weight, and the matrix of
  \<open>grad_weight\<close> is the product of the transpose of the matrix of the input with the
  matrix of \<open>g\<close>.
\<close>

theorem Matmul_backward_transposed_products:
  assumes fw: "Matmul_forward F thr inp w s0 = (Inr (ret, saved), s1)"
    and wf0: "wf_buffer s0 inp" "wf_buffer s0 w" "cache_ok s0"
    and sh: "shape inp = lead @ [i, m]" "shape w = wlead @ [m, o']" "prod_list wlead = prod_list lead"
    and wf: "wf_buffer s inp" "wf_buffer s w" "wf_buffer s g" and sg: "shape g = shape ret"
  shows "\<exists>k gi gw s'. Matmul_backward F thr saved g s = (Inr (gi, gw), s') \<and>
           launches s1 = launches s0 @ [k] \<and> launches s' = launches s @ [k, k] \<and>
           compiled s' = compiled s \<and> shape gi = shape inp \<and> shape gw = shape w \<and>
           (\<forall>b X Y. 0 \<le> b \<and> b < prod_list lead \<and> 0 \<le> X \<and> X < i \<and> 0 \<le> Y \<and> Y < m \<longrightarrow>
              at3 (contents s' gi) i m b X Y
                = dot F o' (\<lambda>k. at3 (contents s g) i o' b X k) (\<lambda>k. at3 (contents s w) m o' b Y k)) \<and>
           (\<forall>b X Y. 0 \<le> b \<and> b < prod_list lead \<and> 0 \<le> X \<and> X < m \<and> 0 \<le> Y \<and> Y < o' \<longrightarrow>
              at3 (contents s' gw) m o' b X Y
                = dot F i (\<lambda>k. at3 (contents s inp) i m b k X) (\<lambda>k. at3 (contents s g) i o' b k Y))"
proof -
  from Matmul_forward_ok [OF wf0 sh, of F thr] obtain ret' k s1' where
    f: "Matmul_forward F thr inp w s0 = (Inr (ret', (inp, w, k, prod_list lead)), s1')"
    and r: "shape ret' = lead @ [i, o']" and k: "ksrc k = MatmulSrc"
    and l: "launches s1' = launches s0 @ [k]"
    by (elim exE conjE)
  have eq: "ret = ret'" "saved = (inp, w, k, prod_list lead)" "s1 = s1'"
    using fw f by simp_all
  have sg': "shape g = lead @ [i, o']" using sg r eq by simp
  from Matmul_backward_ok [OF wf sh sg' k, of F thr] obtain gi gw s' where
    "Matmul_backward F thr (inp, w, k, prod_list lead) g s = (Inr (gi, gw), s')"
    "shape gi = shape inp" "shape gw = shape w"
    "launches s' = launches s @ [k, k]" "compiled s' = compiled s"
    "\<forall>b X Y. 0 \<le> b \<and> b < prod_list lead \<and> 0 \<le> X \<and> X < i \<and> 0 \<le> Y \<and> Y < m \<longrightarrow>
              at3 (contents s' gi) i m b X Y
                = dot F o' (\<lambda>k. at3 (contents s g) i o' b X k) (\<lambda>k. at3 (contents s w) m o' b Y k)"
    "\<forall>b X Y. 0 \<le> b \<and> b < prod_list lead \<and> 0 \<le> X \<and> X < m \<and> 0 \<le> Y \<and> Y < o' \<longrightarrow>
              at3 (contents s' gw) m o' b X Y
                = dot F i (\<lambda>k. at3 (contents s inp) i m b k X) (\<lambda>k. at3 (contents s g) i o' b k Y)"
    by (elim exE conjE)
  then show ?thesis
    using l eq by (intro exI [of _ k] exI [of _ gi] exI [of _ gw] exI [of _ s']) simp
qed

theorem Matmul_backward_transposed_products_witness:
  "\<exists>ret saved s1 k gi gw s'.
     Matmul_forward int_sem 0 \<lparr>shape = [2, 1, 2], cl = 0\<rparr> \<lparr>shape = [2, 2, 1], cl = 1\<rparr>
        (int_device [[1, 2, 3, 4], [5, 6, 7, 8], [10, 100]]) = (Inr (ret, saved), s1) \<and>
     wf_buffer (int_device [[1, 2, 3, 4], [5, 6, 7, 8], [10, 100]]) \<lparr>shape = [2, 1, 2], cl = 0\<rparr> \<and>
     wf_buffer (int_device [[1, 2, 3, 4], [5, 6, 7, 8], [10, 100]]) \<lparr>shape = [2, 2, 1], cl = 1\<rparr> \<and>
     wf_buffer (int_device [[1, 2, 3, 4], [5, 6, 7, 8], [10, 100]]) \<lparr>shape = [2, 1, 1], cl = 2\<rparr> \<and>
     cache_ok (int_device [[1, 2, 3, 4], [5, 6, 7, 8], [10, 100]]) \<and>
     shape \<lparr>shape = [2, 1, 1], cl = 2\<rparr> = shape ret \<and>
     Matmul_backward int_sem 0 saved \<lparr>shape = [2, 1, 1], cl = 2\<rparr>
        (int_device [[1, 2, 3, 4], [5, 6, 7, 8], [10, 100]]) = (Inr (gi, gw), s') \<and>
     launches s1 = [k] \<and> launches s' = [k, k] \<and>
     at3 (contents s' gi) 1 2 1 0 1 = 800 \<and> at3 (contents s' gw) 2 1 0 1 0 = 20"
proof -
  let ?s = "int_device [[1, 2, 3, 4], [5, 6, 7, 8], [10, 100]]"
  let ?i = "\<lparr>shape = [2, 1, 2], cl = 0\<rparr>" and ?w = "\<lparr>shape = [2, 2, 1], cl = 1\<rparr>"
  let ?g = "\<lparr>shape = [2, 1, 1], cl = 2\<rparr>"
  have wi: "wf_buffer ?s ?i" and ww: "wf_buffer ?s ?w" and wg: "wf_buffer ?s ?g" and co: "cache_ok ?s"
    by (simp_all add: wf_buffer_def cache_ok_def int_device_def device0_def)
  have sh: "shape ?i = [2] @ [1, 2]" "shape ?w = [2] @ [2, 1]" "prod_list [2::int] = prod_list [2]"
    by simp_all
  have ci: "contents ?s ?i = [1, 2, 3, 4]" and cw: "contents ?s ?w = [5, 6, 7, 8]"
    and cg: "contents ?s ?g = [10, 100]"
    by (simp_all add: contents_def int_device_def device0_def)
  have l0: "launches ?s = []" by (simp add: int_device_def device0_def)
  have g1: "gids 1 = [0]" by code_simp
  from Matmul_forward_ok [OF wi ww co sh, of int_sem 0] obtain ret saved s1 where
    f: "Matmul_forward int_sem 0 ?i ?w ?s = (Inr (ret, saved), s1)"
    and r: "shape ret = [2] @ [1, 1]"
    by (elim exE conjE)
  have sg: "shape ?g = shape ret" using r by simp
  from Matmul_backward_transposed_products [OF f wi ww co sh wi ww wg sg]
  obtain k gi gw s' where b: "Matmul_backward int_sem 0 saved ?g ?s = (Inr (gi, gw), s')"
    and l: "launches s1 = launches ?s @ [k]" "launches s' = launches ?s @ [k, k]"
    and v1: "\<forall>b X Y. 0 \<le> b \<and> b < prod_list [2] \<and> 0 \<le> X \<and> X < 1 \<and> 0 \<le> Y \<and> Y < 2 \<longrightarrow>
              at3 (contents s' gi) 1 2 b X Y
                = dot int_sem 1 (\<lambda>k. at3 (contents ?s ?g) 1 1 b X k) (\<lambda>k. at3 (contents ?s ?w) 2 1 b Y k)"
    and v2: "\<forall>b X Y. 0 \<le> b \<and> b < prod_list [2] \<and> 0 \<le> X \<and> X < 2 \<and> 0 \<le> Y \<and> Y < 1 \<longrightarrow>
              at3 (contents s' gw) 2 1 b X Y
                = dot int_sem 1 (\<lambda>k. at3 (contents ?s ?i) 1 2 b k X) (\<lambda>k. at3 (contents ?s ?g) 1 1 b k Y)"
    by (elim exE conjE)
  have "at3 (contents s' gi) 1 2 1 0 1 = 800"
    using v1 [unfolded cg cw, rule_format, of 1 0 1] by (simp add: dot_def g1 at3_def int_sem_def)
  moreover have "at3 (contents s' gw) 2 1 0 1 0 = 20"
    using v2 [unfolded ci cg, rule_format, of 0 1 0] by (simp add: dot_def g1 at3_def int_sem_def)
  ultimately show ?thesis
    using f wi ww wg co sg b l
    by (intro exI [of _ ret] exI [of _ saved] exI [of _ s1] exI [of _ k] exI [of _ gi]
          exI [of _ gw] exI [of _ s']) (simp add: l0)
qed

text \<open>
  Claim C8, as stated for every saved pair, fails for the pair of the spec's own example:
  with an input of shape \<open>(2,3,4)\<close>, a weight of shape \<open>(4,5)\<close> (saved with the batch count 2)
  and a gradient of shape \<open>(2,3,5)\<close>, the kernel accesses the weight and its gradient
  outside their 20 elements.
\<close>

theorem Matmul_backward_unbatched_weight:
  "fst (Matmul_backward int_sem 0
          (\<lparr>shape = [2, 3, 4], cl = 0\<rparr>, \<lparr>shape = [4, 5], cl = 1\<rparr>, Kernel 0 MatmulSrc ''matmul'', 2)
          \<lparr>shape = [2, 3, 5], cl = 2\<rparr>
          (int_device [replicate 24 1, replicate 20 1, replicate 30 1])) = Inl DeviceFault"
  by code_simp




lemma in_shape_length: "in_shape shp ms \<Longrightarrow> length shp = length ms"
  by (auto simp: in_shape_def dest: list_all2_lengthD)

lemma in_shape_nth: "in_shape shp ms \<Longrightarrow> k < length shp \<Longrightarrow> 0 \<le> ms ! k \<and> ms ! k < shp ! k"
  by (auto simp: in_shape_def list_all2_conv_all_nth)


lemma in_shape_take: "in_shape shp ms \<Longrightarrow> in_shape (take k shp) (take k ms)"
  by (simp add: in_shape_def list_all2_takeI)


lemma flat_index_surj:
  assumes "\<forall>d \<in> set shp. 0 \<le> d" "0 \<le> g" "g < prod_list shp"
  shows "\<exists>ms. in_shape shp ms \<and> flat_index shp ms = g"
  using assms
proof (induction shp arbitrary: g rule: rev_induct)
  case Nil
  then show ?case by (simp add: in_shape_def flat_index_def)
next
  case (snoc d shp)
  have nn: "0 \<le> prod_list shp" using snoc.prems(1) by (intro prod_list_nonneg) auto
  have d: "0 < d"
  proof (rule ccontr)
    assume "\<not> 0 < d"
    then have "d = 0" using snoc.prems(1) by auto
    then show False using snoc.prems(2,3) by simp
  qed
  have q: "0 \<le> g div d" using snoc.prems(2) d by (simp add: pos_imp_zdiv_nonneg_iff)
  have "g div d < prod_list shp"
  proof -
    have lt: "g < prod_list shp * d" using snoc.prems(3) by simp
    show ?thesis
    proof (rule ccontr)
      assume "\<not> g div d < prod_list shp"
      then have "prod_list shp * d \<le> (g div d) * d" using d by (intro mult_right_mono) auto
      moreover have "(g div d) * d \<le> g"
      proof -
        have "d * (g div d) + g mod d = g" by (rule mult_div_mod_eq)
        moreover have "0 \<le> g mod d" using d by simp
        ultimately have "d * (g div d) \<le> g" by linarith
        then show ?thesis by (simp only: mult.commute)
      qed
      ultimately show False using lt by simp
    qed
  qed
  then obtain ms where ms: "in_shape shp ms" "flat_index shp ms = g div d"
    using snoc.IH [of "g div d"] snoc.prems(1) q by auto
  have "in_shape (shp @ [d]) (ms @ [g mod d])"
    using ms(1) d by (simp add: in_shape_def list_all2_appendI)
  moreover have "flat_index (shp @ [d]) (ms @ [g mod d]) = g"
    using in_shape_length [OF ms(1)] ms(2) by (simp add: flat_index_snoc)
  ultimately show ?case by blast
qed

lemma rd_nth: "k < length xs \<Longrightarrow> rd xs (int k) = Some (xs ! k)"
  by (simp add: rd_def)




lemma launch_updates_error: "launch_updates k out ts s = (Inl e, s') \<Longrightarrow> e = DeviceFault"
  by (auto simp: launch_updates_def split: if_splits option.splits)

lemma buffer_new_pos:
  assumes "\<forall>d \<in> set shp. 0 < d"
  shows "\<exists>r s1. buffer_new F shp z s = (Inr r, s1)"
proof -
  have "\<forall>d \<in> set shp. 0 \<le> d" using assms by auto
  then show ?thesis by (simp add: buffer_new_ok)
qed

lemma buffer_new_error_dims:
  "buffer_new F shp z s = (Inl e, s') \<Longrightarrow> s' = s \<and> \<not> (\<forall>d \<in> set shp. 0 < d)"
  using buffer_new_pos [of shp F z s] by (auto dest: buffer_new_error)

lemma Conv2D_backward_fails:
  assumes "Conv2D_backward F thr (x, w) stride groups g s = (Inl e, s')" "e \<noteq> DeviceFault"
    and "\<forall>d \<in> set (shape w). 0 < d"
  shows "mem s' = mem s \<and> launches s' = launches s"
  using assms
  by (auto simp: Conv2D_backward_def Let_def split: if_splits prod.splits list.splits
         dest!: on_ok_error launch_error launch_updates_error buffer_new_error_dims clbuild_frame)

lemma Conv2D_backward_assert:
  assumes "shape g = [bs0, cout0, oy0, ox0]" "shape w = [cout, cin, H, W]" "shape x = [bs, cin', iy, ix]"
    and "ys \<noteq> 0" "xs \<noteq> 0" "groups \<noteq> 0"
    and "\<not> (cin * groups = cin' \<and> cout mod groups = 0)"
  shows "Conv2D_backward F thr (x, w) (ys, xs) groups g s = (Inl AssertionError, s)"
  using assms by (auto simp: Conv2D_backward_def Let_def)

lemma reduce_op_fails:
  assumes "reduce_op F thr code code2 inp axis start s = (Inl e, s')" "e \<noteq> DeviceFault"
  shows "mem s' = mem s \<and> launches s' = launches s"
  using assms
  by (auto simp: reduce_op_def Let_def buffer_np_def split: if_splits prod.splits sum.splits
           dest!: on_ok_error launch_error buffer_new_error clbuild_frame)

lemma perm_axis_fails:
  assumes "perm_axis F thr inp order s = (Inl e, s')" "e \<noteq> DeviceFault"
  shows "mem s' = mem s \<and> launches s' = launches s"
  using assms
  by (auto simp: perm_axis_def Let_def buffer_np_def split: if_splits prod.splits sum.splits
           dest!: on_ok_error launch_error buffer_new_error clbuild_frame)

lemma inner_slice_fails:
  assumes "inner_slice F thr x arg s = (Inl e, s')" "e \<noteq> DeviceFault"
  shows "mem s' = mem s \<and> launches s' = launches s"
  using assms
  by (auto simp: inner_slice_def Let_def buffer_np_def split: if_splits prod.splits sum.splits
           dest!: on_ok_error launch_error buffer_new_error clbuild_frame)

lemma Reshape_forward_assert:
  assumes "- 1 \<notin> set shp" "prod_list (shape x) \<noteq> prod_list shp"
  shows "Reshape_forward x shp s = (Inl AssertionError, s)"
proof -
  have "map (\<lambda>d. if d = - 1 then c else d) ds = ds" if "- 1 \<notin> set ds" for c :: int and ds
    using that by (induction ds) auto
  from this [OF assms(1)]
  have "map (\<lambda>d. if d = - 1 then (- prod_list (shape x)) div prod_list shp else d) shp = shp" .
  then show ?thesis using assms(2) by (simp add: Reshape_forward_def GPUBuffer_of_def)
qed

lemma Matmul_forward_contraction:
  assumes "shape inp = lead @ [i, m]" "shape w = wlead @ [m', o']" "m \<noteq> m'"
  shows "Matmul_forward F thr inp w s = (Inl AssertionError, s)"
  using assms py_nth_last2 [of lead i m] py_nth_last2 [of wlead m' o']
  by (intro Matmul_forward_assert [of inp m w m']) simp_all





subsection \<open>Claim C6\<close>



lemma is_perm_length: "is_perm n order \<Longrightarrow> length order = n"
proof -
  assume p: "is_perm n order"
  then have d: "distinct order" and s: "set order = int ` {0..<n}" by (simp_all add: is_perm_def)
  from d have "card (set order) = length order" by (rule distinct_card)
  moreover have "card (int ` {0..<n}) = n" by (simp add: card_image)
  ultimately show ?thesis by (simp only: s)
qed

lemma is_perm_nth:
  assumes "is_perm n order" "i < n"
  shows "0 \<le> order ! i" "nat (order ! i) < n"
proof -
  have "order ! i \<in> set order" using assms is_perm_length [OF assms(1)] by simp
  then have "order ! i \<in> int ` {0..<n}" using assms(1) by (simp add: is_perm_def)
  then show "0 \<le> order ! i" "nat (order ! i) < n" by auto
qed

lemma is_perm_inj:
  assumes "is_perm n order" "i < n" "j < n" "order ! i = order ! j"
  shows "i = j"
  using assms is_perm_length [OF assms(1)] by (simp add: is_perm_def nth_eq_iff_index_eq)

lemma is_perm_surj:
  assumes "is_perm n order" "a < n"
  shows "\<exists>i < n. order ! i = int a"
proof -
  have "int a \<in> set order" using assms by (simp add: is_perm_def)
  then show ?thesis using is_perm_length [OF assms(1)] by (auto simp: in_set_conv_nth)
qed

lemma is_perm_bij:
  assumes "is_perm n order"
  shows "bij_betw (\<lambda>i. nat (order ! i)) {..<n} {..<n}"
proof (rule bij_betwI')
  fix i j assume "i \<in> {..<n}" "j \<in> {..<n}"
  then have ij: "i < n" "j < n" by simp_all
  show "(nat (order ! i) = nat (order ! j)) = (i = j)"
  proof
    assume "nat (order ! i) = nat (order ! j)"
    then have "order ! i = order ! j"
      using is_perm_nth(1) [OF assms ij(1)] is_perm_nth(1) [OF assms ij(2)] by simp
    then show "i = j" using is_perm_inj [OF assms ij] by simp
  qed simp
next
  fix i assume "i \<in> {..<n}"
  then show "nat (order ! i) \<in> {..<n}" using is_perm_nth(2) [OF assms] by simp
next
  fix a assume "a \<in> {..<n}"
  then obtain i where "i < n" "order ! i = int a" using is_perm_surj [OF assms] by auto
  then show "\<exists>i \<in> {..<n}. a = nat (order ! i)" by (intro bexI [of _ i]) simp_all
qed

lemma argsort_nth:
  assumes p: "is_perm n order" and a: "a < n"
  shows "\<exists>j < n. argsort order ! a = int j \<and> order ! j = int a"
proof -
  let ?z = "zip order [0..<length order]"
  let ?L = "sort_key fst ?z"
  have len: "length order = n" using p by (rule is_perm_length)
  have lL: "length ?L = n" by (simp add: len)
  have fz: "map fst ?z = order" by (simp add: map_fst_zip)
  have sL: "set ?L = set ?z" by simp
  have dL: "distinct (map fst ?L)"
  proof -
    have "distinct ?L" by (simp add: distinct_zipI1 p [unfolded is_perm_def, THEN conjunct1])
    moreover have "inj_on fst (set ?L)"
    proof (rule inj_onI)
      fix u v assume u: "u \<in> set ?L" and v: "v \<in> set ?L" and e: "fst u = fst v"
      from u obtain i where i: "order ! i = fst u" "snd u = i" "i < n"
        by (auto simp: in_set_zip len)
      from v obtain j where j: "order ! j = fst v" "snd v = j" "j < n"
        by (auto simp: in_set_zip len)
      have "i = j" using is_perm_inj [OF p i(3) j(3)] i(1) j(1) e by simp
      then show "u = v" using i j e by (simp add: prod_eq_iff)
    qed
    ultimately show ?thesis by (simp add: distinct_map)
  qed
  have "set (map fst ?L) = set order"
  proof -
    have "set (map fst ?L) = fst ` set ?z" by simp
    also have "\<dots> = set (map fst ?z)" by (simp only: set_map)
    finally show ?thesis by (simp only: fz)
  qed
  then have "set (map fst ?L) = set (map int [0..<n])"
    using p by (simp add: is_perm_def)
  moreover have "sorted (map int [0..<n])" "distinct (map int [0..<n])"
    by (simp_all add: sorted_map distinct_map inj_on_def sorted_wrt_iff_nth_less)
  moreover have "sorted (map fst ?L)" by (rule sorted_sort_key)
  ultimately have mf: "map fst ?L = map int [0..<n]"
    using dL by (intro sorted_distinct_set_unique)
  have "fst (?L ! a) = int a"
  proof -
    have "fst (?L ! a) = map fst ?L ! a" using a lL by (simp del: length_sort)
    then show ?thesis using a by (simp only: mf) simp
  qed
  moreover have "?L ! a \<in> set ?z" using a lL sL nth_mem [of a ?L] by (simp del: length_sort set_sort)
  then obtain j where "order ! j = fst (?L ! a)" "snd (?L ! a) = j" "j < n"
    by (auto simp: in_set_zip len)
  moreover have "argsort order ! a = int (snd (?L ! a))"
    using a lL by (simp add: argsort_def del: length_sort)
  ultimately show ?thesis by auto
qed

lemma argsort_length: "length (argsort order) = length order"
  by (simp add: argsort_def)

lemma argsort_is_perm:
  assumes p: "is_perm n order"
  shows "is_perm n (argsort order)"
proof -
  let ?q = "argsort order"
  have len: "length ?q = n" using is_perm_length [OF p] by (simp add: argsort_length)
  have d: "distinct ?q"
  proof (unfold distinct_conv_nth, intro allI impI)
    fix a b assume ab: "a < length ?q" "b < length ?q" "a \<noteq> b"
    then have a: "a < n" and b: "b < n" using len by simp_all
    obtain j where j: "?q ! a = int j" "order ! j = int a" using argsort_nth [OF p a] by auto
    obtain k where k: "?q ! b = int k" "order ! k = int b" using argsort_nth [OF p b] by auto
    show "?q ! a \<noteq> ?q ! b" using j k ab(3) by auto
  qed
  have "set ?q \<subseteq> int ` {0..<n}"
  proof
    fix v assume "v \<in> set ?q"
    then obtain a where a: "a < n" "v = ?q ! a" using len by (auto simp: in_set_conv_nth)
    then obtain j where "j < n" "?q ! a = int j" using argsort_nth [OF p a(1)] by auto
    then show "v \<in> int ` {0..<n}" using a by auto
  qed
  moreover have "card (set ?q) = card (int ` {0..<n})"
    using d len by (simp add: distinct_card card_image)
  ultimately have "set ?q = int ` {0..<n}" by (intro card_subset_eq) simp_all
  then show ?thesis using d by (simp add: is_perm_def)
qed

lemma argsort_inverse:
  assumes p: "is_perm n order"
  shows "a < n \<Longrightarrow> order ! nat (argsort order ! a) = int a"
    and "i < n \<Longrightarrow> argsort order ! nat (order ! i) = int i"
proof -
  show 1: "order ! nat (argsort order ! a) = int a" if "a < n" for a
    using argsort_nth [OF p that] by auto
  assume i: "i < n"
  let ?a = "nat (order ! i)"
  have a: "?a < n" "0 \<le> order ! i" using is_perm_nth [OF p i] by simp_all
  obtain j where j: "j < n" "argsort order ! ?a = int j" "order ! j = int ?a"
    using argsort_nth [OF p a(1)] by auto
  then have "order ! j = order ! i" using a by simp
  then have "j = i" using is_perm_inj [OF p j(1) i] by simp
  then show "argsort order ! nat (order ! i) = int i" using j by simp
qed

lemma permute_nth:
  "i < length order \<Longrightarrow> permute order xs ! i = xs ! nat (order ! i)"
  by (simp add: permute_def)

lemma length_permute: "length (permute order xs) = length order"
  by (simp add: permute_def)

lemma permute_argsort:
  assumes p: "is_perm n order" and l: "length xs = n"
  shows "permute (argsort order) (permute order xs) = xs"
    and "permute order (permute (argsort order) xs) = xs"
proof -
  have lo: "length order = n" "length (argsort order) = n"
    using is_perm_length [OF p] by (simp_all add: argsort_length)
  have q: "is_perm n (argsort order)" using p by (rule argsort_is_perm)
  show "permute (argsort order) (permute order xs) = xs"
  proof (rule nth_equalityI)
    show "length (permute (argsort order) (permute order xs)) = length xs"
      by (simp add: length_permute lo l)
  next
    fix a assume "a < length (permute (argsort order) (permute order xs))"
    then have a: "a < n" by (simp add: length_permute lo)
    have "nat (argsort order ! a) < n" using is_perm_nth [OF q a] by simp
    then show "permute (argsort order) (permute order xs) ! a = xs ! a"
      using a argsort_inverse(1) [OF p a] by (simp add: permute_nth lo)
  qed
  show "permute order (permute (argsort order) xs) = xs"
  proof (rule nth_equalityI)
    show "length (permute order (permute (argsort order) xs)) = length xs"
      by (simp add: length_permute lo l)
  next
    fix i assume "i < length (permute order (permute (argsort order) xs))"
    then have i: "i < n" by (simp add: length_permute lo)
    have "nat (order ! i) < n" using is_perm_nth [OF p i] by simp
    then show "permute order (permute (argsort order) xs) ! i = xs ! i"
      using i argsort_inverse(2) [OF p i] by (simp add: permute_nth lo)
  qed
qed

lemma perm_stride_upt:
  assumes "j \<le> length shp"
  shows "perm_stride shp (map int [j..<length shp]) acc = Some (acc * prod_list (drop j shp))"
  using assms
proof (induction "length shp - j" arbitrary: j acc)
  case 0
  then show ?case by simp
next
  case (Suc k)
  then have j: "j < length shp" by simp
  have "perm_stride shp (map int [Suc j..<length shp]) (acc * shp ! j)
        = Some (acc * shp ! j * prod_list (drop (Suc j) shp))"
    using Suc by (intro Suc.hyps(1)) simp_all
  moreover have "drop j shp = shp ! j # drop (Suc j) shp" using j by (simp add: Cons_nth_drop_Suc)
  ultimately show ?case
    using j by (simp add: upt_conv_Cons rd_nth mult.assoc)
qed

lemma perm_stride_ok:
  assumes "a < length shp"
  shows "perm_stride shp (map (\<lambda>k. int a + 1 + k) (gids (int (length shp) - (int a + 1)))) 1
         = Some (prod_list (drop (Suc a) shp))"
proof -
  have "nat (int (length shp) - (int a + 1)) = length shp - Suc a" by simp
  then have "map (\<lambda>k. int a + 1 + k) (gids (int (length shp) - (int a + 1)))
             = map (\<lambda>i. int (i + Suc a)) [0..<length shp - Suc a]"
    by (simp add: gids_def add.commute add.left_commute)
  also have "\<dots> = map int (map (\<lambda>i. i + Suc a) [0..<length shp - Suc a])" by simp
  also have "\<dots> = map int [Suc a..<length shp]"
  proof -
    have "length shp - Suc a + Suc a = length shp" using assms by simp
    then show ?thesis by (simp only: map_add_upt)
  qed
  finally show ?thesis using perm_stride_upt [of "Suc a" shp 1] assms by simp
qed

lemma perm_idx_steps:
  assumes p: "is_perm n order" and ls: "length shp = n"
    and ins: "in_shape (permute order shp) ms" and k: "k \<le> n"
  shows "perm_idx shp order (int n) (rev (map int [0..<k]))
           (flat_index (take k (permute order shp)) (take k ms)) idx
         = Some (idx + (\<Sum>i<k. ms ! i * prod_list (drop (Suc (nat (order ! i))) shp)))"
  using k
proof (induction k arbitrary: idx)
  case 0
  then show ?case by simp
next
  case (Suc k)
  let ?os = "permute order shp"
  have lo: "length order = n" using p by (rule is_perm_length)
  have los: "length ?os = n" by (simp add: length_permute lo)
  have lm: "length ms = n" using in_shape_length [OF ins] los by simp
  have kn: "k < n" using Suc.prems by simp
  have oi: "0 \<le> order ! k" "nat (order ! k) < n" using is_perm_nth [OF p kn] by simp_all
  have dk: "?os ! k = shp ! nat (order ! k)" using kn lo by (simp add: permute_nth)
  have mk: "0 \<le> ms ! k" "ms ! k < ?os ! k" using in_shape_nth [OF ins, of k] kn los by simp_all
  have fl: "flat_index (take (Suc k) ?os) (take (Suc k) ms)
            = flat_index (take k ?os) (take k ms) * ?os ! k + ms ! k"
    using kn los lm by (simp add: take_Suc_conv_app_nth flat_index_snoc)
  have dv: "(flat_index (take (Suc k) ?os) (take (Suc k) ms)) div (?os ! k)
            = flat_index (take k ?os) (take k ms)"
    and md: "(flat_index (take (Suc k) ?os) (take (Suc k) ms)) mod (?os ! k) = ms ! k"
    using mk by (simp_all add: fl)
  have r1: "rd order (int k) = Some (order ! k)" using kn lo by (simp add: rd_nth)
  have r2: "rd shp (order ! k) = Some (shp ! nat (order ! k))"
    using oi ls by (simp add: rd_def)
  have st: "perm_stride shp (map (\<lambda>j. order ! k + 1 + j) (gids (int n - (order ! k + 1)))) 1
            = Some (prod_list (drop (Suc (nat (order ! k))) shp))"
    using perm_stride_ok [of "nat (order ! k)" shp] oi ls by simp
  have "perm_idx shp order (int n) (rev (map int [0..<Suc k]))
           (flat_index (take (Suc k) ?os) (take (Suc k) ms)) idx
        = perm_idx shp order (int n) (rev (map int [0..<k]))
            (flat_index (take k ?os) (take k ms))
            (idx + ms ! k * prod_list (drop (Suc (nat (order ! k))) shp))"
    by (simp add: r1 r2 st dk [symmetric] dv md)
  also have "\<dots> = Some (idx + ms ! k * prod_list (drop (Suc (nat (order ! k))) shp)
                       + (\<Sum>i<k. ms ! i * prod_list (drop (Suc (nat (order ! i))) shp)))"
    using kn by (intro Suc.IH) simp
  finally show ?case by (simp add: add.assoc add.commute)
qed

lemma flat_index_sum:
  "length shp = length ms \<Longrightarrow>
   flat_index shp ms = (\<Sum>a<length shp. ms ! a * prod_list (drop (Suc a) shp))"
proof (induction shp arbitrary: ms rule: rev_induct)
  case Nil
  then show ?case by (simp add: flat_index_def)
next
  case (snoc d shp)
  then obtain ms' m where ms: "ms = ms' @ [m]" "length ms' = length shp"
    by (cases ms rule: rev_cases) auto
  have "flat_index (shp @ [d]) ms = flat_index shp ms' * d + m"
    using ms by (simp add: flat_index_snoc)
  also have "flat_index shp ms' = (\<Sum>a<length shp. ms' ! a * prod_list (drop (Suc a) shp))"
    using ms by (intro snoc.IH) simp
  also have "(\<Sum>a<length shp. ms' ! a * prod_list (drop (Suc a) shp)) * d
             = (\<Sum>a<length shp. ms ! a * prod_list (drop (Suc a) (shp @ [d])))"
    unfolding sum_distrib_right
    by (rule sum.cong) (simp_all add: ms nth_append mult.assoc)
  finally show ?case using ms by (simp add: nth_append)
qed

lemma perm_idx_flat:
  assumes p: "is_perm n order" and ls: "length shp = n" and ins: "in_shape shp ps"
  shows "in_shape (permute order shp) (permute order ps)"
    and "perm_idx shp order (int n) (rev (gids (int n)))
           (flat_index (permute order shp) (permute order ps)) 0
         = Some (flat_index shp ps)"
proof -
  have lo: "length order = n" using p by (rule is_perm_length)
  have lp: "length ps = n" using in_shape_length [OF ins] ls by simp
  show ins': "in_shape (permute order shp) (permute order ps)"
    unfolding in_shape_def
  proof (rule list_all2_all_nthI)
    show "length (permute order shp) = length (permute order ps)" by (simp add: length_permute)
  next
    fix i assume "i < length (permute order shp)"
    then have i: "i < n" by (simp add: length_permute lo)
    have "nat (order ! i) < length shp" using is_perm_nth [OF p i] ls by simp
    then show "0 \<le> permute order ps ! i \<and> permute order ps ! i < permute order shp ! i"
      using in_shape_nth [OF ins] i lo by (simp add: permute_nth)
  qed
  let ?f = "\<lambda>a. ps ! a * prod_list (drop (Suc a) shp)"
  have "perm_idx shp order (int n) (rev (map int [0..<n]))
           (flat_index (take n (permute order shp)) (take n (permute order ps))) 0
         = Some (0 + (\<Sum>i<n. permute order ps ! i * prod_list (drop (Suc (nat (order ! i))) shp)))"
    using p ls ins' by (rule perm_idx_steps) simp
  moreover have "(\<Sum>i<n. permute order ps ! i * prod_list (drop (Suc (nat (order ! i))) shp))
                 = (\<Sum>i<n. ?f (nat (order ! i)))"
    by (rule sum.cong) (simp_all add: permute_nth lo)
  moreover have "(\<Sum>i\<in>{..<n}. ?f (nat (order ! i))) = sum ?f {..<n}"
    using is_perm_bij [OF p] by (rule sum.reindex_bij_betw)
  moreover have "sum ?f {..<n} = flat_index shp ps"
    using flat_index_sum [of shp ps] ls lp by simp
  ultimately show "perm_idx shp order (int n) (rev (gids (int n)))
           (flat_index (permute order shp) (permute order ps)) 0
         = Some (flat_index shp ps)"
    by (simp add: gids_def length_permute lo)
qed

lemma permute_onto:
  assumes p: "is_perm n order" and ls: "length shp = n"
    and ins: "in_shape (permute order shp) ms"
  shows "\<exists>ps. in_shape shp ps \<and> permute order ps = ms"
proof -
  let ?q = "argsort order"
  have q: "is_perm n ?q" using p by (rule argsort_is_perm)
  have lo: "length order = n" using p by (rule is_perm_length)
  have lm: "length ms = n" using in_shape_length [OF ins] by (simp add: length_permute lo)
  have "in_shape (permute ?q (permute order shp)) (permute ?q ms)"
    using q _ ins by (rule perm_idx_flat(1)) (simp add: length_permute lo)
  then have "in_shape shp (permute ?q ms)"
    by (simp add: permute_argsort(1) [OF p ls])
  moreover have "permute order (permute ?q ms) = ms"
    using p lm by (rule permute_argsort(2))
  ultimately show ?thesis by blast
qed

lemma take_axes_ok:
  assumes "\<forall>a \<in> set as. 0 \<le> a \<and> nat a < length shp"
  shows "take_axes shp as = Inr (permute as shp)"
  using assms
proof (induction as)
  case Nil
  then show ?case by (simp add: permute_def)
next
  case (Cons a as)
  then have "py_nth shp a = Inr (shp ! nat a)"
    by (auto simp: py_nth_def py_index_def)
  then show ?case using Cons by (simp add: permute_def)
qed

lemma perm_thread_ok:
  assumes p: "is_perm n order" and ls: "length shp = n" and pos: "\<forall>d \<in> set shp. 0 < d"
    and la: "int (length a_g) = prod_list shp"
    and g: "0 \<le> gid" "gid < prod_list (permute order shp)"
  shows "perm_thread PermSrc a_g (int n) shp order gid = Some (gid, perm_val a_g shp order gid)"
proof -
  have lo: "length order = n" using p by (rule is_perm_length)
  have "\<forall>d \<in> set (permute order shp). 0 \<le> d"
  proof
    fix d assume "d \<in> set (permute order shp)"
    then obtain i where i: "i < n" "d = shp ! nat (order ! i)"
      by (auto simp: permute_def in_set_conv_nth lo)
    have "nat (order ! i) < length shp" using is_perm_nth [OF p i(1)] ls by simp
    then have "shp ! nat (order ! i) \<in> set shp" by simp
    then show "0 \<le> d" using pos i by fastforce
  qed
  from flat_index_surj [OF this g] obtain ms where
    ms: "in_shape (permute order shp) ms" "flat_index (permute order shp) ms = gid" by blast
  from permute_onto [OF p ls ms(1)] obtain ps where
    ps: "in_shape shp ps" "permute order ps = ms" by blast
  have idx: "perm_idx shp order (int n) (rev (gids (int n))) gid 0 = Some (flat_index shp ps)"
    using perm_idx_flat(2) [OF p ls ps(1)] ps(2) ms(2) by simp
  have "0 \<le> flat_index shp ps" "flat_index shp ps < int (length a_g)"
    using flat_index_in_range [OF ps(1)] la by simp_all
  then show ?thesis
    by (simp add: perm_thread_def perm_val_def idx lo rd_def)
qed

lemma perm_val_at:
  assumes p: "is_perm n order" and ls: "length shp = n" and ins: "in_shape shp ps"
  shows "perm_val a_g shp order (flat_index (permute order shp) (permute order ps))
         = a_g ! nat (flat_index shp ps)"
  using perm_idx_flat(2) [OF p ls ins] is_perm_length [OF p] by (simp add: perm_val_def)

lemma perm_axis_ok:
  assumes wf: "wf_buffer s x" and co: "cache_ok s" and p: "is_perm (length (shape x)) order"
  shows "\<exists>k s'. perm_axis F thr x order s
            = (Inr \<lparr>shape = permute order (shape x), cl = length (mem s)\<rparr>, s') \<and>
          mem s' = mem s @ [map (perm_val (contents s x) (shape x) order)
                                (gids (prod_list (permute order (shape x))))] \<and>
          launches s' = launches s @ [k] \<and> ksrc k = PermSrc \<and> cache_ok s'"
proof -
  let ?n = "length (shape x)"
  let ?osh = "permute order (shape x)"
  let ?N = "prod_list ?osh"
  have lo: "length order = ?n" using p by (rule is_perm_length)
  have pos: "\<forall>d \<in> set (shape x). 0 < d" using wf by (simp add: wf_buffer_def)
  have rng: "\<forall>a \<in> set order. 0 \<le> a \<and> nat a < length (shape x)"
    using p by (auto simp: is_perm_def)
  have ta: "take_axes (shape x) order = Inr ?osh" using rng by (rule take_axes_ok)
  have opos: "\<forall>d \<in> set ?osh. 0 < d"
    using rng pos by (auto simp: permute_def)
  then have nn: "\<forall>d \<in> set ?osh. 0 \<le> d" by fastforce
  have N: "0 \<le> ?N" using nn by (intro prod_list_nonneg) auto
  define s1 where "s1 = s\<lparr>mem := mem s @ [map (fresh s) [0..<nat ?N]]\<rparr>"
  let ?ret = "\<lparr>shape = ?osh, cl = length (mem s)\<rparr>"
  have bn: "buffer_new F ?osh False s = (Inr ?ret, s1)"
    using nn by (subst buffer_new_ok) (auto simp: s1_def)
  obtain k s2 where cb: "clbuild thr PermSrc ''perm'' s1 = (k, s2)"
    by (cases "clbuild thr PermSrc ''perm'' s1")
  have co1: "cache_ok s1" using co by (simp add: s1_def)
  have s2: "mem s2 = mem s1" "fresh s2 = fresh s1" "uploads s2 = uploads s1" "launches s2 = launches s1"
    using clbuild_fields [of thr PermSrc "''perm''" s1] cb by simp_all
  have k: "ksrc k = PermSrc" and co2: "cache_ok s2"
    using clbuild_ksrc [OF co1, of thr PermSrc "''perm''"]
      clbuild_cache_ok [OF co1, of thr PermSrc "''perm''"] cb by simp_all
  define s4 where "s4 = s2\<lparr>uploads := uploads s2 @ [shape x] @ [order]\<rparr>"
  have np: "buffer_np (shape x) s2 = (shape x, s2\<lparr>uploads := uploads s2 @ [shape x]\<rparr>)"
    "buffer_np order (s2\<lparr>uploads := uploads s2 @ [shape x]\<rparr>) = (order, s4)"
    by (simp_all add: buffer_np_def s4_def)
  have m4: "mem s4 = mem s @ [map (fresh s) [0..<nat ?N]]"
    by (simp add: s4_def s2 s1_def)
  have c4: "contents s4 x = contents s x"
    using wf by (simp add: contents_def m4 wf_buffer_def nth_append)
  let ?a = "contents s x"
  have la: "int (length ?a) = prod_list (shape x)"
    using wf prod_list_pos_int [of "shape x"] by (simp add: contents_wf wf_buffer_def)
  have body: "perm_thread (ksrc k) ?a (int (length ?osh)) (shape x) order gid
              = Some (gid, perm_val ?a (shape x) order gid)"
    if "0 \<le> gid" "gid < ?N" for gid
    unfolding k length_permute lo using p _ pos la that by (rule perm_thread_ok) simp
  define s5 where "s5 = s4\<lparr>mem := (mem s4)[length (mem s) :=
                               map (perm_val ?a (shape x) order) (gids ?N)],
                            launches := launches s4 @ [k]\<rparr>"
  have lau: "launch k (length (mem s))
              (map (perm_thread (ksrc k) ?a (int (length ?osh)) (shape x) order) (gids ?N)) s4
            = (Inr (), s5)"
    unfolding s5_def using N body by (intro launch_ident) (simp_all add: m4)
  have "perm_axis F thr x order s = (Inr ?ret, s5)"
    unfolding perm_axis_def ta sum.case bn on_ok_simps
    apply (simp only: cb prod.case buffer.simps np c4 lau on_ok_simps)
    done
  moreover have "mem s5 = mem s @ [map (perm_val ?a (shape x) order) (gids ?N)]"
    by (simp add: s5_def m4)
  moreover have "launches s5 = launches s @ [k]"
    by (simp add: s5_def s4_def s2 s1_def)
  moreover have "cache_ok s5" using co2 by (simp add: s5_def s4_def)
  ultimately show ?thesis using k by blast
qed

subsection \<open>Claim C10\<close>

text \<open>
  Claim C10. For a well-formed buffer \<open>x\<close> and a permutation \<open>order\<close> of its axes
  \<open>0, ..., n - 1\<close>, \<open>perm_axis\<close> with \<open>order\<close> followed by \<open>perm_axis\<close> with
  \<open>argsort(order)\<close>, which is what \<open>Transpose.backward\<close> applies, returns a buffer with
  the shape of \<open>x\<close> and the contents of \<open>x\<close>.
\<close>

theorem perm_axis_round_trip:
  assumes wf: "wf_buffer s x" and co: "cache_ok s"
    and d: "distinct order" and so: "set order = int ` {0..<length (shape x)}"
  shows "\<exists>y s1 z s2. perm_axis F thr x order s = (Inr y, s1) \<and>
           Transpose_backward F thr order y s1 = (Inr z, s2) \<and>
           Transpose_backward F thr order y s1 = perm_axis F thr y (argsort order) s1 \<and>
           shape z = shape x \<and> contents s2 z = contents s x"
proof -
  let ?n = "length (shape x)" and ?q = "argsort order"
  let ?shp = "shape x" and ?osh = "permute order (shape x)"
  have p: "is_perm ?n order" using d so by (simp add: is_perm_def)
  have q: "is_perm ?n ?q" using p by (rule argsort_is_perm)
  have lo: "length order = ?n" using p by (rule is_perm_length)
  have pos: "\<forall>d \<in> set ?shp. 0 < d" using wf by (simp add: wf_buffer_def)
  have cx: "contents s x = mem s ! cl x" and lx: "length (contents s x) = nat (prod_list ?shp)"
    using wf by (simp_all add: contents_wf wf_buffer_def)
  let ?dy = "map (perm_val (contents s x) ?shp order) (gids (prod_list ?osh))"
  let ?y = "\<lparr>shape = ?osh, cl = length (mem s)\<rparr>"
  from perm_axis_ok [OF wf co p, of F thr] obtain k1 s1 where
    r1: "perm_axis F thr x order s = (Inr ?y, s1)" and m1: "mem s1 = mem s @ [?dy]"
    and co1: "cache_ok s1"
    by (elim exE conjE)
  have opos: "\<forall>d \<in> set ?osh. 0 < d"
    using p pos by (auto simp: permute_def is_perm_def)
  have wy: "wf_buffer s1 ?y"
    by (simp add: wf_buffer_def m1 opos length_gids)
  have cy: "contents s1 ?y = ?dy" by (simp add: contents_def m1)
  have q': "is_perm (length (shape ?y)) ?q" using q by (simp add: length_permute lo)
  have pback: "permute ?q ?osh = ?shp" using p by (rule permute_argsort(1)) simp
  let ?dz = "map (perm_val ?dy ?osh ?q) (gids (prod_list (permute ?q ?osh)))"
  let ?z = "\<lparr>shape = permute ?q ?osh, cl = length (mem s1)\<rparr>"
  from perm_axis_ok [OF wy co1 q', of F thr] obtain k2 s2 where
    r2: "perm_axis F thr ?y ?q s1 = (Inr ?z, s2)" and m2: "mem s2 = mem s1 @ [?dz]"
    by (elim exE conjE) (simp add: cy)
  have cz: "contents s2 ?z = ?dz" by (simp add: contents_def m2)
  have lz: "length ?dz = nat (prod_list ?shp)" by (simp add: length_gids pback)
  have "?dz = contents s x"
  proof (rule nth_equalityI)
    show "length ?dz = length (contents s x)" by (simp only: lz lx)
  next
    fix g assume "g < length ?dz"
    then have g: "0 \<le> int g" "int g < prod_list ?shp" using lz by simp_all
    have "\<forall>d \<in> set ?shp. 0 \<le> d" using pos by fastforce
    from flat_index_surj [OF this g] obtain ps where
      ps: "in_shape ?shp ps" "flat_index ?shp ps = int g" by blast
    have lps: "length ps = ?n" using in_shape_length [OF ps(1)] by simp
    have ins1: "in_shape ?osh (permute order ps)"
      using p _ ps(1) by (rule perm_idx_flat(1)) simp
    have v1: "perm_val (contents s x) ?shp order (flat_index ?osh (permute order ps))
              = contents s x ! nat (flat_index ?shp ps)"
      using p _ ps(1) by (rule perm_val_at) simp
    have v2: "perm_val ?dy ?osh ?q (flat_index (permute ?q ?osh) (permute ?q (permute order ps)))
              = ?dy ! nat (flat_index ?osh (permute order ps))"
      using q _ ins1 by (rule perm_val_at) (simp add: length_permute lo)
    have bp: "permute ?q (permute order ps) = ps" using p lps by (rule permute_argsort(1))
    have r: "0 \<le> flat_index ?osh (permute order ps)"
      "flat_index ?osh (permute order ps) < prod_list ?osh"
      using flat_index_in_range [OF ins1] by simp_all
    have "?dz ! g = perm_val ?dy ?osh ?q (int g)"
      using g gids_nth [of "int g" "prod_list ?shp"] by (simp add: pback length_gids)
    also have "\<dots> = ?dy ! nat (flat_index ?osh (permute order ps))"
      using v2 by (simp add: bp pback ps(2))
    also have "\<dots> = perm_val (contents s x) ?shp order (flat_index ?osh (permute order ps))"
      using r gids_nth [OF r] by (simp add: length_gids)
    also have "\<dots> = contents s x ! g" using v1 by (simp add: ps(2))
    finally show "?dz ! g = contents s x ! g" .
  qed
  then have "contents s2 ?z = contents s x" by (simp only: cz)
  moreover have "shape ?z = shape x" by (simp add: pback)
  moreover have "Transpose_backward F thr order ?y s1 = perm_axis F thr ?y ?q s1"
    by (simp add: Transpose_backward_def)
  ultimately show ?thesis using r1 r2 by (intro exI [of _ ?y] exI [of _ s1] exI [of _ ?z] exI [of _ s2]) simp
qed

theorem perm_axis_round_trip_witness:
  "\<exists>y s1 z s2. perm_axis int_sem 0 \<lparr>shape = [2, 3], cl = 0\<rparr> [1, 0] (int_device [[1, 2, 3, 4, 5, 6]])
                  = (Inr y, s1) \<and>
                Transpose_backward int_sem 0 [1, 0] y s1 = (Inr z, s2) \<and>
                shape z = [2, 3] \<and> contents s2 z = [1, 2, 3, 4, 5, 6]"
proof -
  let ?s = "int_device [[1, 2, 3, 4, 5, 6]]" and ?x = "\<lparr>shape = [2, 3], cl = 0\<rparr>"
  let ?order = "[1, 0] :: int list"
  have wf: "wf_buffer ?s ?x" and co: "cache_ok ?s"
    by (simp_all add: wf_buffer_def cache_ok_def int_device_def device0_def)
  have d: "distinct ?order" by simp
  have so: "set ?order = int ` {0..<length (shape ?x)}"
    by (simp add: atLeastLessThanSuc insert_commute)
  have cx: "contents ?s ?x = [1, 2, 3, 4, 5, 6]"
    by (simp add: contents_def int_device_def device0_def)
  from perm_axis_round_trip [OF wf co d so, of int_sem 0] obtain y s1 z s2 where
    a: "perm_axis int_sem 0 ?x ?order ?s = (Inr y, s1)"
    and b: "Transpose_backward int_sem 0 ?order y s1 = (Inr z, s2)"
    and c: "shape z = shape ?x" and e: "contents s2 z = contents ?s ?x"
    by (elim exE conjE)
  have c': "shape z = [2, 3]" using c by simp
  have e': "contents s2 z = [1, 2, 3, 4, 5, 6]" using e by (simp only: cx)
  show ?thesis
    using a b c' e' by (intro exI [of _ y] exI [of _ s1] exI [of _ z] exI [of _ s2] conjI)
qed

lemma wf_buffer_append:
  assumes "wf_buffer s b" "mem s' = mem s @ m"
  shows "wf_buffer s' b" "contents s' b = contents s b"
  using assms by (simp_all add: wf_buffer_def contents_def nth_append)

lemma binary_op_returns:
  fixes x y :: buffer
  assumes wx: "wf_buffer s x" and wy: "wf_buffer s y" and co: "cache_ok s"
    and bc: "broadcastable (pad_ones (max (length (shape x)) (length (shape y))) (shape x))
                           (pad_ones (max (length (shape x)) (length (shape y))) (shape y))"
  shows "\<exists>ret s' m. binary_op F thr code x y s = (Inr ret, s') \<and>
           shape ret = map2 max (pad_ones (max (length (shape x)) (length (shape y))) (shape x))
                                (pad_ones (max (length (shape x)) (length (shape y))) (shape y)) \<and>
           wf_buffer s' ret \<and> mem s' = mem s @ m \<and> cache_ok s'"
proof -
  let ?n = "max (length (shape x)) (length (shape y))"
  let ?sx = "pad_ones ?n (shape x)" and ?sy = "pad_ones ?n (shape y)"
  let ?ret = "\<lparr>shape = map2 max ?sx ?sy, cl = length (mem s)\<rparr>"
  from binary_op_ok [OF wx wy co bc, where F = F and code = code and thr = thr]
  obtain prg s' where r: "binary_op F thr code x y s = (Inr ?ret, s')"
    and m: "mem s' = mem s @ [binop_data F code ?sx ?sy (contents s x) (contents s y)]"
    and co': "cache_ok s'"
    by (elim exE conjE)
  have px: "\<forall>d \<in> set ?sx. 0 < d" and py: "\<forall>d \<in> set ?sy. 0 < d"
    using wx wy set_pad_ones [of "shape x" ?n] set_pad_ones [of "shape y" ?n]
    by (simp_all add: wf_buffer_def)
  have pret: "\<forall>d \<in> set (map2 max ?sx ?sy). 0 < d"
    using px py by (auto dest!: set_zip_leftD)
  have N: "0 < prod_list (map2 max ?sx ?sy)" using pret by (rule prod_list_pos_int)
  have wf: "wf_buffer s' ?ret"
    using pret N by (simp add: wf_buffer_def m binop_data_def length_gids)
  show ?thesis
    using r wf m co' by (intro exI [of _ ?ret] exI [of _ s'] exI) simp
qed

lemma sum_axis_ok:
  assumes "i + length in_sh \<le> length osh"
  shows "\<exists>ax. sum_axis i in_sh osh = Inr ax \<and> (\<forall>a \<in> set ax. 0 \<le> a \<and> a < int (length osh))"
  using assms
proof (induction in_sh arbitrary: i)
  case Nil
  then show ?case by simp
next
  case (Cons d in_sh)
  then have i: "i < length osh" by simp
  from Cons.IH [of "Suc i"] Cons.prems obtain ax where
    ax: "sum_axis (Suc i) in_sh osh = Inr ax" "\<forall>a \<in> set ax. 0 \<le> a \<and> a < int (length osh)"
    by auto
  show ?case using i ax by simp
qed

lemma reduce_op_returns:
  assumes wf: "wf_buffer s inp" and co: "cache_ok s"
    and ax: "case axis of None \<Rightarrow> True
             | Some ax \<Rightarrow> \<forall>a \<in> set ax. 0 \<le> a \<and> a < int (length (shape inp))"
  shows "\<exists>ret s' m. reduce_op F thr code code2 inp axis start s = (Inr ret, s') \<and>
           mem s' = mem s @ m \<and> cache_ok s'"
proof -
  have pos: "\<forall>d \<in> set (shape inp). 0 < d" using wf by (simp add: wf_buffer_def)
  have "\<exists>osize. osize_of (shape inp) axis = Inr osize \<and> length osize = length (shape inp) \<and>
                 (\<forall>d \<in> set osize. 0 < d)"
  proof (cases axis)
    case None
    then show ?thesis by (simp add: osize_of_def)
  next
    case (Some a)
    then have "\<forall>a \<in> set a. - int (length (shape inp)) \<le> a \<and> a < int (length (shape inp))"
      using ax by fastforce
    from set_ones_ok [OF this] obtain osize where
      os: "set_ones (shape inp) a = Inr osize" "length osize = length (shape inp)"
      "\<forall>i < length (shape inp). osize ! i = shape inp ! i \<or> osize ! i = 1"
      by blast
    have "\<forall>d \<in> set osize. 0 < d"
    proof
      fix d assume "d \<in> set osize"
      then obtain i where i: "i < length osize" "d = osize ! i" by (auto simp: in_set_conv_nth)
      then have "shape inp ! i \<in> set (shape inp)" using os(2) by simp
      then have "0 < shape inp ! i" using pos by blast
      then show "0 < d" using os(3) i os(2) by fastforce
    qed
    then show ?thesis using os Some by (simp add: osize_of_def)
  qed
  then obtain osize where os: "osize_of (shape inp) axis = Inr osize"
    "length osize = length (shape inp)" "\<forall>d \<in> set osize. 0 < d" by blast
  from reduce_op_ok [OF wf co os, of F thr code code2 start] obtain k s' where
    "reduce_op F thr code code2 inp axis start s
       = (Inr \<lparr>shape = (if axis = None then [1] else osize), cl = length (mem s)\<rparr>, s')"
    "mem s' = mem s @ [reduce_data F start code code2 (contents s inp) (shape inp) osize]"
    "cache_ok s'"
    by (elim exE conjE)
  then show ?thesis by blast
qed

lemma unbroadcast_returns:
  assumes wf: "wf_buffer s out" and co: "cache_ok s" and len: "length in_sh \<le> length (shape out)"
  shows "\<exists>ret s' m. unbroadcast F thr out in_sh s = (Inr ret, s') \<and>
           mem s' = mem s @ m \<and> cache_ok s'"
proof (cases "in_sh = [1]")
  case True
  then show ?thesis
    using reduce_op_returns [OF wf co, of None F thr] by (simp add: unbroadcast_def)
next
  case False
  from sum_axis_ok [of 0 in_sh "shape out"] len obtain ax where
    ax: "sum_axis 0 in_sh (shape out) = Inr ax" "\<forall>a \<in> set ax. 0 \<le> a \<and> a < int (length (shape out))"
    by auto
  show ?thesis
    using reduce_op_returns [OF wf co, of "Some ax" F thr] ax False
    by (simp add: unbroadcast_def)
qed

lemma broadcastable_with_max:
  assumes "broadcastable sx sy" "\<forall>d \<in> set sx. 0 < d" "\<forall>d \<in> set sy. 0 < d"
  shows "broadcastable sx (map2 max sx sy)" "broadcastable sy (map2 max sx sy)"
    "map2 max sx (map2 max sx sy) = map2 max sx sy" "map2 max sy (map2 max sx sy) = map2 max sx sy"
  using assms unfolding broadcastable_def
  by (induction sx sy rule: list_all2_induct) auto

lemma Mul_backward_returns:
  fixes x y g :: buffer
  assumes wx: "wf_buffer s x" and wy: "wf_buffer s y" and wg: "wf_buffer s g" and co: "cache_ok s"
    and bc: "broadcastable (pad_ones (max (length (shape x)) (length (shape y))) (shape x))
                           (pad_ones (max (length (shape x)) (length (shape y))) (shape y))"
    and sg: "shape g = map2 max (pad_ones (max (length (shape x)) (length (shape y))) (shape x))
                                (pad_ones (max (length (shape x)) (length (shape y))) (shape y))"
  shows "\<exists>r s'. Mul_backward F thr (x, y) g s = (Inr r, s')"
proof -
  let ?n = "max (length (shape x)) (length (shape y))"
  let ?sx = "pad_ones ?n (shape x)" and ?sy = "pad_ones ?n (shape y)"
  have lx: "length ?sx = ?n" and ly: "length ?sy = ?n" by (simp_all add: length_pad_ones)
  have lg: "length (shape g) = ?n" using lx ly by (simp add: sg)
  have px: "\<forall>d \<in> set ?sx. 0 < d" and py: "\<forall>d \<in> set ?sy. 0 < d"
    using wx wy set_pad_ones [of "shape x" ?n] set_pad_ones [of "shape y" ?n]
    by (simp_all add: wf_buffer_def)
  note bm = broadcastable_with_max [OF bc px py]
  have pg: "pad_ones ?n (shape g) = shape g" using lg by (simp add: pad_ones_def)
  have ny: "max (length (shape y)) (length (shape g)) = ?n"
    and nx: "max (length (shape x)) (length (shape g)) = ?n" using lg by simp_all
  have by0: "broadcastable ?sy (shape g)" and bx0: "broadcastable ?sx (shape g)"
    using bm(1,2) by (simp_all only: sg)
  have bcy: "broadcastable (pad_ones (max (length (shape y)) (length (shape g))) (shape y))
                           (pad_ones (max (length (shape y)) (length (shape g))) (shape g))"
    using by0 by (simp only: ny pg)
  from binary_op_returns [OF wy wg co bcy, of F thr "''a*b''"] obtain grad_x s1 m1 where
    1: "binary_op F thr ''a*b'' y g s = (Inr grad_x, s1)"
    and sgx: "shape grad_x = map2 max (pad_ones (max (length (shape y)) (length (shape g))) (shape y))
                   (pad_ones (max (length (shape y)) (length (shape g))) (shape g))"
    and wgx: "wf_buffer s1 grad_x" and m1: "mem s1 = mem s @ m1" and co1: "cache_ok s1"
    by (elim exE conjE)
  have "length (shape grad_x) = length (map2 max ?sy (shape g))"
    using sgx by (simp only: ny pg)
  then have lgx: "length (shape grad_x) = ?n" using ly lg by simp
  have wx1: "wf_buffer s1 x" and wg1: "wf_buffer s1 g"
    using wf_buffer_append(1) [OF wx m1] wf_buffer_append(1) [OF wg m1] by simp_all
  have bcx: "broadcastable (pad_ones (max (length (shape x)) (length (shape g))) (shape x))
                           (pad_ones (max (length (shape x)) (length (shape g))) (shape g))"
    using bx0 by (simp only: nx pg)
  from binary_op_returns [OF wx1 wg1 co1 bcx, of F thr "''a*b''"] obtain grad_y s2 m2 where
    2: "binary_op F thr ''a*b'' x g s1 = (Inr grad_y, s2)"
    and sgy: "shape grad_y = map2 max (pad_ones (max (length (shape x)) (length (shape g))) (shape x))
                   (pad_ones (max (length (shape x)) (length (shape g))) (shape g))"
    and wgy: "wf_buffer s2 grad_y" and m2: "mem s2 = mem s1 @ m2" and co2: "cache_ok s2"
    by (elim exE conjE)
  have "length (shape grad_y) = length (map2 max ?sx (shape g))"
    using sgy by (simp only: nx pg)
  then have lgy: "length (shape grad_y) = ?n" using lx lg by simp
  have wgx2: "wf_buffer s2 grad_x" using wf_buffer_append(1) [OF wgx m2] .
  have "length (shape x) \<le> length (shape grad_x)" using lgx by simp
  from unbroadcast_returns [OF wgx2 co2 this, of F thr] obtain gx s3 m3 where
    3: "unbroadcast F thr grad_x (shape x) s2 = (Inr gx, s3)"
    and m3: "mem s3 = mem s2 @ m3" and co3: "cache_ok s3"
    by (elim exE conjE)
  have wgy3: "wf_buffer s3 grad_y" using wf_buffer_append(1) [OF wgy m3] .
  have "length (shape y) \<le> length (shape grad_y)" using lgy by simp
  from unbroadcast_returns [OF wgy3 co3 this, of F thr] obtain gy s4 m4 where
    4: "unbroadcast F thr grad_y (shape y) s3 = (Inr gy, s4)"
    by (elim exE conjE)
  have "Mul_backward F thr (x, y) g s = (Inr (gx, gy), s4)"
    by (simp only: Mul_backward_def prod.case 1 2 3 4 on_ok_simps)
  then show ?thesis by blast
qed

subsection \<open>Claim C4\<close>

text \<open>
  Claim C4. The operations that check their arguments are \<open>binary_op\<close> (and with it the
  forward passes of \<open>Add\<close>, \<open>Sub\<close>, \<open>Mul\<close> and \<open>Pow\<close>), \<open>Reshape.forward\<close>,
  \<open>Matmul.forward\<close>, \<open>Conv2D.forward\<close> and \<open>Conv2D.backward\<close>. Each of the invalid
  arguments (shapes that do not broadcast, a reshape that changes the number of elements,
  a contraction mismatch, channels that do not match the groups) makes the operation
  raise and return the device exactly as it was: nothing has been allocated, compiled,
  uploaded or launched. More generally, whenever one of these operations, \<open>reduce_op\<close>,
  \<open>perm_axis\<close> or \<open>inner_slice\<close> raises, no buffer has been allocated, no kernel has
  been launched and every buffer holds what it held before. Raising means returning a
  Python exception: every error but \<open>DeviceFault\<close>, which stands for the undefined
  behaviour of a kernel that accesses a buffer out of bounds and is not an exception of
  the program. For \<open>Conv2D.backward\<close>, which allocates two buffers, the saved weight is
  a buffer with positive dimensions. The backward passes that chain several
  \<open>binary_op\<close> calls check nothing themselves: \<open>Mul.backward\<close>, given the inputs of a
  forward pass that succeeded and a gradient of the shape of its output, returns, so that
  none of its calls raises halfway.
\<close>

theorem validation_before_allocation:
  "(\<not> broadcastable (pad_ones (max (length (shape x1)) (length (shape y1))) (shape x1))
                     (pad_ones (max (length (shape x1)) (length (shape y1))) (shape y1))
      \<longrightarrow> binary_op F thr code x1 y1 s
            = (Inl (Exception ''binary op unbroadcastable shape mismatch''), s)) \<and>
   (- 1 \<notin> set shp \<and> prod_list (shape x2) \<noteq> prod_list shp
      \<longrightarrow> Reshape_forward x2 shp s = (Inl AssertionError, s)) \<and>
   (shape x3 = lead @ [i, m] \<and> shape w3 = wlead @ [m', o'] \<and> m \<noteq> m'
      \<longrightarrow> Matmul_forward F thr x3 w3 s = (Inl AssertionError, s)) \<and>
   (shape w4 = [cout, cin, H, W] \<and> shape x4 = [bs, cin', iy, ix] \<and>
    stride_pair stride = (ys, xs) \<and> ys \<noteq> 0 \<and> xs \<noteq> 0 \<and> groups \<noteq> 0 \<and>
    \<not> (cin * groups = cin' \<and> cout mod groups = 0)
      \<longrightarrow> Conv2D_forward F thr x4 w4 stride groups s = (Inl AssertionError, s)) \<and>
   (shape g4 = [bs', cout', oy, ox] \<and> shape w4 = [cout, cin, H, W] \<and>
    shape x4 = [bs, cin', iy, ix] \<and> ys \<noteq> 0 \<and> xs \<noteq> 0 \<and> groups \<noteq> 0 \<and>
    \<not> (cin * groups = cin' \<and> cout mod groups = 0)
      \<longrightarrow> Conv2D_backward F thr (x4, w4) (ys, xs) groups g4 s = (Inl AssertionError, s)) \<and>
   (binary_op F thr code x1 y1 s = (Inl e1, s1) \<and> e1 \<noteq> DeviceFault
      \<longrightarrow> mem s1 = mem s \<and> launches s1 = launches s) \<and>
   (Reshape_forward x2 shp s = (Inl e2, s2) \<longrightarrow> s2 = s) \<and>
   (Matmul_forward F thr x3 w3 s = (Inl e3, s3) \<and> e3 \<noteq> DeviceFault
      \<longrightarrow> mem s3 = mem s \<and> launches s3 = launches s) \<and>
   (Conv2D_forward F thr x4 w4 stride groups s = (Inl e4, s4) \<and> e4 \<noteq> DeviceFault
      \<longrightarrow> mem s4 = mem s \<and> launches s4 = launches s) \<and>
   (Conv2D_backward F thr (x4, w4) (ys, xs) groups g4 s = (Inl e5, s5) \<and> e5 \<noteq> DeviceFault \<and>
    (\<forall>d \<in> set (shape w4). 0 < d)
      \<longrightarrow> mem s5 = mem s \<and> launches s5 = launches s) \<and>
   (reduce_op F thr acc fin x6 axis start s = (Inl e6, s6) \<and> e6 \<noteq> DeviceFault
      \<longrightarrow> mem s6 = mem s \<and> launches s6 = launches s) \<and>
   (perm_axis F thr x7 order s = (Inl e7, s7) \<and> e7 \<noteq> DeviceFault
      \<longrightarrow> mem s7 = mem s \<and> launches s7 = launches s) \<and>
   (inner_slice F thr x8 arg s = (Inl e8, s8) \<and> e8 \<noteq> DeviceFault
      \<longrightarrow> mem s8 = mem s \<and> launches s8 = launches s) \<and>
   (wf_buffer s x9 \<and> wf_buffer s y9 \<and> wf_buffer s g9 \<and> cache_ok s \<and>
    broadcastable (pad_ones (max (length (shape x9)) (length (shape y9))) (shape x9))
                  (pad_ones (max (length (shape x9)) (length (shape y9))) (shape y9)) \<and>
    shape g9 = map2 max (pad_ones (max (length (shape x9)) (length (shape y9))) (shape x9))
                        (pad_ones (max (length (shape x9)) (length (shape y9))) (shape y9))
      \<longrightarrow> (\<exists>r s9. Mul_backward F thr (x9, y9) g9 s = (Inr r, s9)))"
proof -
  have 1: "\<not> broadcastable (pad_ones (max (length (shape x1)) (length (shape y1))) (shape x1))
                     (pad_ones (max (length (shape x1)) (length (shape y1))) (shape y1))
      \<longrightarrow> binary_op F thr code x1 y1 s
            = (Inl (Exception ''binary op unbroadcastable shape mismatch''), s)"
    using binary_op_mismatch [of x1 y1 F thr code s] by blast
  have 2: "- 1 \<notin> set shp \<and> prod_list (shape x2) \<noteq> prod_list shp
      \<longrightarrow> Reshape_forward x2 shp s = (Inl AssertionError, s)"
    using Reshape_forward_assert [of shp x2 s] by blast
  have 3: "shape x3 = lead @ [i, m] \<and> shape w3 = wlead @ [m', o'] \<and> m \<noteq> m'
      \<longrightarrow> Matmul_forward F thr x3 w3 s = (Inl AssertionError, s)"
    using Matmul_forward_contraction [of x3 lead i m w3 wlead m' o' F thr s] by blast
  have 4: "shape w4 = [cout, cin, H, W] \<and> shape x4 = [bs, cin', iy, ix] \<and>
    stride_pair stride = (ys, xs) \<and> ys \<noteq> 0 \<and> xs \<noteq> 0 \<and> groups \<noteq> 0 \<and>
    \<not> (cin * groups = cin' \<and> cout mod groups = 0)
      \<longrightarrow> Conv2D_forward F thr x4 w4 stride groups s = (Inl AssertionError, s)"
    using Conv2D_forward_assert [of w4 cout cin H W x4 bs cin' iy ix stride ys xs groups F thr s]
    by blast
  have 5: "shape g4 = [bs', cout', oy, ox] \<and> shape w4 = [cout, cin, H, W] \<and>
    shape x4 = [bs, cin', iy, ix] \<and> ys \<noteq> 0 \<and> xs \<noteq> 0 \<and> groups \<noteq> 0 \<and>
    \<not> (cin * groups = cin' \<and> cout mod groups = 0)
      \<longrightarrow> Conv2D_backward F thr (x4, w4) (ys, xs) groups g4 s = (Inl AssertionError, s)"
    using Conv2D_backward_assert [of g4 bs' cout' oy ox w4 cout cin H W x4 bs cin' iy ix ys xs
        groups F thr s]
    by blast
  have 6: "binary_op F thr code x1 y1 s = (Inl e1, s1) \<and> e1 \<noteq> DeviceFault
      \<longrightarrow> mem s1 = mem s \<and> launches s1 = launches s"
    using binary_op_fails [of F thr code x1 y1 s e1 s1] by blast
  have 7: "Reshape_forward x2 shp s = (Inl e2, s2) \<longrightarrow> s2 = s"
    using Reshape_forward_fails [of x2 shp s e2 s2] by blast
  have 8: "Matmul_forward F thr x3 w3 s = (Inl e3, s3) \<and> e3 \<noteq> DeviceFault
      \<longrightarrow> mem s3 = mem s \<and> launches s3 = launches s"
    using Matmul_forward_fails [of F thr x3 w3 s e3 s3] by blast
  have 9: "Conv2D_forward F thr x4 w4 stride groups s = (Inl e4, s4) \<and> e4 \<noteq> DeviceFault
      \<longrightarrow> mem s4 = mem s \<and> launches s4 = launches s"
    using Conv2D_forward_fails [of F thr x4 w4 stride groups s e4 s4] by blast
  have 10: "Conv2D_backward F thr (x4, w4) (ys, xs) groups g4 s = (Inl e5, s5) \<and> e5 \<noteq> DeviceFault \<and>
    (\<forall>d \<in> set (shape w4). 0 < d)
      \<longrightarrow> mem s5 = mem s \<and> launches s5 = launches s"
    using Conv2D_backward_fails [of F thr x4 w4 "(ys, xs)" groups g4 s e5 s5] by blast
  have 11: "reduce_op F thr acc fin x6 axis start s = (Inl e6, s6) \<and> e6 \<noteq> DeviceFault
      \<longrightarrow> mem s6 = mem s \<and> launches s6 = launches s"
    using reduce_op_fails [of F thr acc fin x6 axis start s e6 s6] by blast
  have 12: "perm_axis F thr x7 order s = (Inl e7, s7) \<and> e7 \<noteq> DeviceFault
      \<longrightarrow> mem s7 = mem s \<and> launches s7 = launches s"
    using perm_axis_fails [of F thr x7 order s e7 s7] by blast
  have 13: "inner_slice F thr x8 arg s = (Inl e8, s8) \<and> e8 \<noteq> DeviceFault
      \<longrightarrow> mem s8 = mem s \<and> launches s8 = launches s"
    using inner_slice_fails [of F thr x8 arg s e8 s8] by blast
  have 14: "wf_buffer s x9 \<and> wf_buffer s y9 \<and> wf_buffer s g9 \<and> cache_ok s \<and>
    broadcastable (pad_ones (max (length (shape x9)) (length (shape y9))) (shape x9))
                  (pad_ones (max (length (shape x9)) (length (shape y9))) (shape y9)) \<and>
    shape g9 = map2 max (pad_ones (max (length (shape x9)) (length (shape y9))) (shape x9))
                        (pad_ones (max (length (shape x9)) (length (shape y9))) (shape y9))
      \<longrightarrow> (\<exists>r s9. Mul_backward F thr (x9, y9) g9 s = (Inr r, s9))"
    using Mul_backward_returns [of s x9 y9 g9 F thr] by blast
  show ?thesis
    by (intro conjI 1 2 3 4 5 6 7 8 9 10 11 12 13 14)
qed

theorem validation_before_allocation_witness:
  "binary_op int_sem 0 ''a+b'' \<lparr>shape = [1, 2, 3, 3], cl = 0\<rparr> \<lparr>shape = [1, 1, 2, 2], cl = 1\<rparr>
       (int_device [replicate 18 1, replicate 4 1])
     = (Inl (Exception ''binary op unbroadcastable shape mismatch''),
        int_device [replicate 18 1, replicate 4 1]) \<and>
   Reshape_forward \<lparr>shape = [1, 2, 3, 3], cl = 0\<rparr> [4, 4] (int_device [replicate 18 1, replicate 4 1])
     = (Inl AssertionError, int_device [replicate 18 1, replicate 4 1]) \<and>
   Matmul_forward int_sem 0 \<lparr>shape = [1, 2, 3, 3], cl = 0\<rparr> \<lparr>shape = [1, 1, 2, 2], cl = 1\<rparr>
       (int_device [replicate 18 1, replicate 4 1])
     = (Inl AssertionError, int_device [replicate 18 1, replicate 4 1]) \<and>
   Conv2D_forward int_sem 0 \<lparr>shape = [1, 2, 3, 3], cl = 0\<rparr> \<lparr>shape = [1, 1, 2, 2], cl = 1\<rparr>
       (StrideInt 1) 1 (int_device [replicate 18 1, replicate 4 1])
     = (Inl AssertionError, int_device [replicate 18 1, replicate 4 1]) \<and>
   Conv2D_backward int_sem 0 (\<lparr>shape = [1, 2, 3, 3], cl = 0\<rparr>, \<lparr>shape = [1, 1, 2, 2], cl = 1\<rparr>)
       (1, 1) 1 \<lparr>shape = [1, 1, 2, 2], cl = 1\<rparr> (int_device [replicate 18 1, replicate 4 1])
     = (Inl AssertionError, int_device [replicate 18 1, replicate 4 1]) \<and>
   reduce_op int_sem 0 ''out += a'' ''out'' \<lparr>shape = [1, 2, 3, 3], cl = 0\<rparr> (Some [7]) ''0.0''
       (int_device [replicate 18 1, replicate 4 1])
     = (Inl IndexError, int_device [replicate 18 1, replicate 4 1]) \<and>
   perm_axis int_sem 0 \<lparr>shape = [1, 2, 3, 3], cl = 0\<rparr> [7]
       (int_device [replicate 18 1, replicate 4 1])
     = (Inl IndexError, int_device [replicate 18 1, replicate 4 1]) \<and>
   inner_slice int_sem 0 \<lparr>shape = [1, 2, 3, 3], cl = 0\<rparr> [(3, 1)]
       (int_device [replicate 18 1, replicate 4 1])
     = (Inl AllocationError, int_device [replicate 18 1, replicate 4 1]) \<and>
   (\<exists>r s9. Mul_backward int_sem 0 (\<lparr>shape = [1, 2, 3, 3], cl = 0\<rparr>, \<lparr>shape = [1, 2, 3, 3], cl = 0\<rparr>)
              \<lparr>shape = [1, 2, 3, 3], cl = 0\<rparr> (int_device [replicate 18 1, replicate 4 1])
            = (Inr r, s9)) \<and>
   mem (int_device [replicate 18 1, replicate 4 1]) = [replicate 18 1, replicate 4 1] \<and>
   launches (int_device [replicate 18 1, replicate 4 1]) = []"
proof -
  let ?s = "int_device [replicate 18 1, replicate 4 1]"
  let ?x = "\<lparr>shape = [1, 2, 3, 3], cl = 0\<rparr>" and ?w = "\<lparr>shape = [1, 1, 2, 2], cl = 1\<rparr>"
  have nb: "\<not> broadcastable (pad_ones (max (length (shape ?x)) (length (shape ?w))) (shape ?x))
                          (pad_ones (max (length (shape ?x)) (length (shape ?w))) (shape ?w))"
    by (simp add: broadcastable_def pad_ones_def)
  have r: "- 1 \<notin> set [4, 4 :: int] \<and> prod_list (shape ?x) \<noteq> prod_list [4, 4]"
    by simp
  have m: "shape ?x = [1, 2] @ [3, 3] \<and> shape ?w = [1, 1] @ [2, 2] \<and> (3 :: int) \<noteq> 2"
    by simp
  have c: "shape ?w = [1, 1, 2, 2] \<and> shape ?x = [1, 2, 3, 3] \<and>
           stride_pair (StrideInt 1) = (1, 1) \<and> (1 :: int) \<noteq> 0 \<and>
           \<not> ((1 :: int) * 1 = 2 \<and> (1 :: int) mod 1 = 0)"
    by (simp add: stride_pair_def)
  have pw: "\<forall>d \<in> set (shape ?w). 0 < d"
    by simp
  have red: "reduce_op int_sem 0 ''out += a'' ''out'' ?x (Some [7]) ''0.0'' ?s = (Inl IndexError, ?s)"
    by (simp add: reduce_op_def py_index_def)
  have per: "perm_axis int_sem 0 ?x [7] ?s = (Inl IndexError, ?s)"
    by (simp add: perm_axis_def py_nth_def py_index_def)
  have sl: "inner_slice int_sem 0 ?x [(3, 1)] ?s = (Inl AllocationError, ?s)"
    by (simp add: inner_slice_def buffer_new_def)
  have f: "mem ?s = [replicate 18 1, replicate 4 1]" "launches ?s = []"
    by (simp_all add: int_device_def device0_def)
  have mb: "wf_buffer ?s ?x \<and> wf_buffer ?s ?x \<and> wf_buffer ?s ?x \<and> cache_ok ?s \<and>
    broadcastable (pad_ones (max (length (shape ?x)) (length (shape ?x))) (shape ?x))
                  (pad_ones (max (length (shape ?x)) (length (shape ?x))) (shape ?x)) \<and>
    shape ?x = map2 max (pad_ones (max (length (shape ?x)) (length (shape ?x))) (shape ?x))
                        (pad_ones (max (length (shape ?x)) (length (shape ?x))) (shape ?x))"
    by (simp add: wf_buffer_def cache_ok_def int_device_def device0_def broadcastable_def
          pad_ones_def)
  show ?thesis
    using validation_before_allocation [where F = int_sem and thr = 0 and code = "''a+b''" and acc = "''out += a''"
        and s = ?s and ?x1.0 = ?x and ?y1.0 = ?w and ?x2.0 = ?x and shp = "[4, 4]"
        and ?x3.0 = ?x and ?w3.0 = ?w and lead = "[1, 2]" and i = 3 and m = 3
        and wlead = "[1, 1]" and m' = 2 and o' = 2
        and ?x4.0 = ?x and ?w4.0 = ?w and ?g4.0 = ?w and stride = "StrideInt 1" and groups = 1
        and ys = 1 and xs = 1 and cout = 1 and cin = 1 and H = 2 and W = 2
        and bs = 1 and cin' = 2 and iy = 3 and ix = 3 and bs' = 1 and cout' = 1 and oy = 2 and ox = 2
        and ?e1.0 = "Exception ''binary op unbroadcastable shape mismatch''" and ?s1.0 = ?s
        and ?e2.0 = AssertionError and ?s2.0 = ?s and ?e3.0 = AssertionError and ?s3.0 = ?s
        and ?e4.0 = AssertionError and ?s4.0 = ?s and ?e5.0 = AssertionError and ?s5.0 = ?s
        and fin = "''out''" and ?x6.0 = ?x and axis = "Some [7]" and start = "''0.0''"
        and ?e6.0 = IndexError and ?s6.0 = ?s
        and ?x7.0 = ?x and order = "[7]" and ?e7.0 = IndexError and ?s7.0 = ?s
        and ?x8.0 = ?x and arg = "[(3, 1)]" and ?e8.0 = AllocationError and ?s8.0 = ?s
        and ?x9.0 = ?x and ?y9.0 = ?x and ?g9.0 = ?x]
      nb r m c pw red per sl f mb
    by simp
qed

(*LEMMAS*)

subsection \<open>Claim C9\<close>

text \<open>
  Claim C9, as amended. The first build of a key that is not cached compiles and caches
  it. A later build of the same key returns the same kernel object and compiles nothing,
  provided that fewer than 128 distinct other keys were built in between (128 is the
  size of the cache of \<open>functools.lru_cache()\<close>).
\<close>

theorem clbuild_idempotent_bounded:
  assumes "distinct (map fst (build_cache s))" "length (build_cache s) \<le> lru_maxsize"
    and "card (set ks - {(thr, prg, name)}) < lru_maxsize"
  shows "(map_of (build_cache s) (thr, prg, name) = None \<longrightarrow>
            compiled (snd (clbuild thr prg name s)) = compiled s + 1 \<and>
            map_of (build_cache (snd (clbuild thr prg name s))) (thr, prg, name)
              = Some (fst (clbuild thr prg name s))) \<and>
         fst (clbuild thr prg name (clbuild_all ks (snd (clbuild thr prg name s))))
           = fst (clbuild thr prg name s) \<and>
         compiled (snd (clbuild thr prg name (clbuild_all ks (snd (clbuild thr prg name s)))))
           = compiled (clbuild_all ks (snd (clbuild thr prg name s)))"
proof -
  let ?k = "(thr, prg, name)"
  let ?s1 = "snd (clbuild thr prg name s)"
  let ?s2 = "clbuild_all ks ?s1"
  have "map_of (build_cache ?s2) ?k = map_of (build_cache ?s1) ?k"
    using clbuild_all_keeps [OF clbuild_inv [OF assms(1,2)], of ks] assms(3) by simp
  then have "map_of (build_cache ?s2) ?k = Some (fst (clbuild thr prg name s))"
    by (simp add: clbuild_cached)
  then have "fst (clbuild thr prg name ?s2) = fst (clbuild thr prg name s) \<and>
             compiled (snd (clbuild thr prg name ?s2)) = compiled ?s2"
    by (simp add: clbuild_def Let_def)
  moreover have "map_of (build_cache s) ?k = None \<longrightarrow>
      compiled ?s1 = compiled s + 1 \<and> map_of (build_cache ?s1) ?k = Some (fst (clbuild thr prg name s))"
    by (simp add: clbuild_def Let_def lru_miss_def)
  ultimately show ?thesis by simp
qed

theorem clbuild_idempotent_bounded_witness:
  "distinct (map fst (build_cache (device0 ()))) \<and>
   length (build_cache (device0 ())) \<le> lru_maxsize \<and>
   card (set [(1::nat, PermSrc, ''perm''), (2, GsliceSrc, ''gslice''), (0, PermSrc, ''perm'')]
           - {(0, PermSrc, ''perm'')}) < lru_maxsize \<and>
   map_of (build_cache (device0 ())) (0, PermSrc, ''perm'') = None \<and>
   compiled (snd (clbuild 0 PermSrc ''perm'' (device0 ()))) = 1 \<and>
   fst (clbuild 0 PermSrc ''perm''
         (clbuild_all [(1, PermSrc, ''perm''), (2, GsliceSrc, ''gslice''), (0, PermSrc, ''perm'')]
           (snd (clbuild 0 PermSrc ''perm'' (device0 ())))))
     = Kernel 0 PermSrc ''perm''"
proof -
  have a: "distinct (map fst (build_cache (device0 ())))" by (simp add: device0_def)
  have b: "length (build_cache (device0 ())) \<le> lru_maxsize" by (simp add: device0_def)
  have c: "card (set [(1::nat, PermSrc, ''perm''), (2, GsliceSrc, ''gslice''), (0, PermSrc, ''perm'')]
                  - {(0, PermSrc, ''perm'')}) < lru_maxsize"
    by (simp add: lru_maxsize_def)
  have d: "fst (clbuild 0 PermSrc ''perm'' (device0 ())) = Kernel 0 PermSrc ''perm''"
    by (simp add: clbuild_def device0_def Let_def)
  have e: "map_of (build_cache (device0 ())) (0::nat, PermSrc, ''perm'') = None"
    by (simp add: device0_def)
  have f: "compiled (device0 ()) = 0" by (simp add: device0_def)
  show ?thesis
    using clbuild_idempotent_bounded [OF a b c] a b c d e f by simp
qed

text \<open>
  Claim C9, as stated, fails: after 128 other keys the entry of the first key has been
  dropped, and building it again compiles again and returns another kernel object.
\<close>

theorem clbuild_evicts_after_128:
  "fst (clbuild 0 PermSrc ''perm''
         (clbuild_all (map (\<lambda>i. (i, PermSrc, ''perm'')) [1..<129])
           (snd (clbuild 0 PermSrc ''perm'' (device0 ())))))
     \<noteq> fst (clbuild 0 PermSrc ''perm'' (device0 ()))"
  by code_simp


end
